theory Spec2Isabelle
  imports Main
begin

section \<open>The torrent engine as btfs.cc uses it\<close>

text \<open>
  btfs.cc talks to libtorrent through \<open>handle\<close>: the metadata (\<open>get_torrent_info\<close>),
  \<open>have_piece\<close>, \<open>piece_priority\<close>, \<open>read_piece\<close>, \<open>file_priority\<close> and the two rate
  limits. The engine is not part of the repository; the model keeps the values the
  program reads and writes there. The C++ \<open>int\<close> and \<open>size_type\<close> arithmetic of
  \<open>Read::Read\<close> and \<open>jump\<close> is modelled on \<open>int\<close>; it agrees with the machine arithmetic as
  long as no intermediate value leaves the range of its type (signed overflow is undefined
  in C++). The one conversion that is defined and lossy, the narrowing of btfs_read's
  64-bit arguments to the \<open>int\<close> parameters of \<open>Read::Read\<close>, is written out (\<open>to_int\<close>).
\<close>

record file_entry =
  fe_path :: string
  fe_offset :: int
  fe_size :: int

record torrent_info =
  ti_piece_length :: int
  ti_num_pieces :: int
  ti_total_size :: int
  ti_files :: "file_entry list"

record peer_request =
  pr_piece :: int
  pr_start :: int
  pr_length :: int

definition num_files :: "torrent_info \<Rightarrow> int" where
  "num_files md = int (length (ti_files md))"

text \<open>
  \<open>file_at\<close> is only applied to the index of one of the torrent's files: the loop index of
  \<open>setup()\<close>, or an index that \<open>setup()\<close> has stored in \<open>files\<close>.
\<close>

definition file_at :: "torrent_info \<Rightarrow> int \<Rightarrow> file_entry" where
  "file_at md i = ti_files md ! nat i"

text \<open>C++ integer division truncates towards zero.\<close>

definition cdiv :: "int \<Rightarrow> int \<Rightarrow> int" where
  "cdiv a b = sgn a * sgn b * (\<bar>a\<bar> div \<bar>b\<bar>)"

definition cmod :: "int \<Rightarrow> int \<Rightarrow> int" where
  "cmod a b = a - b * cdiv a b"

text \<open>
  Modelled from the spec: the engine's \<open>map_byte_range(file_index, offset, length) ->
  (piece, in_piece_offset, length)\<close> (libtorrent's \<open>map_file\<close>, not under src/): the
  byte at \<open>offset\<close> of the file lies at \<open>file offset + offset\<close> of the torrent, and the
  piece geometry is division by the piece length; the length is passed through.
\<close>

definition map_file :: "torrent_info \<Rightarrow> int \<Rightarrow> int \<Rightarrow> int \<Rightarrow> peer_request" where
  "map_file md index off sz =
     (let pos = fe_offset (file_at md index) + off in
      \<lparr>pr_piece = cdiv pos (ti_piece_length md),
       pr_start = cmod pos (ti_piece_length md),
       pr_length = sz\<rparr>)"

text \<open>
  Modelled from the spec: the engine's piece size (libtorrent's \<open>piece_size\<close>, not under
  src/): every piece has the piece length, except the torrent's final, shorter piece.
\<close>

definition piece_size :: "torrent_info \<Rightarrow> int \<Rightarrow> int" where
  "piece_size md p =
     (if p = ti_num_pieces md - 1
      then ti_total_size md - (ti_num_pieces md - 1) * ti_piece_length md
      else ti_piece_length md)"

section \<open>Read::Read: the decomposition of a read into Parts\<close>

text \<open>
  Modelled from the spec: the \<open>Part\<close> constructor of btfs.h (not under src/): a Part
  holds the piece request and the destination, and starts unfilled. The destination
  pointer \<open>buf\<close> is the position in the caller's buffer.
\<close>

record Part =
  part :: peer_request
  buf :: int
  filled :: bool

definition mk_Part :: "peer_request \<Rightarrow> int \<Rightarrow> Part" where
  "mk_Part p b = \<lparr>part = p, buf = b, filled = False\<rparr>"

text \<open>
  The \<open>while\<close> loop of \<open>Read::Read\<close>. It makes no progress when the clamped length is
  not positive, so it is a partial function: \<open>None\<close> is a loop that never ends.
\<close>

partial_function (option) Read_loop ::
  "torrent_info \<Rightarrow> int \<Rightarrow> int \<Rightarrow> int \<Rightarrow> int \<Rightarrow> Part list \<Rightarrow> Part list option" where
  "Read_loop md index b off sz parts =
     (if sz > 0 \<and> off < fe_size (file_at md index) then
        (let p = map_file md index off sz;
             p = p\<lparr>pr_length := min (piece_size md (pr_piece p) - pr_start p) (pr_length p)\<rparr>
         in Read_loop md index (b + pr_length p) (off + pr_length p) (sz - pr_length p)
              (parts @ [mk_Part p b]))
      else Some parts)"

definition Read_Read :: "torrent_info \<Rightarrow> int \<Rightarrow> int \<Rightarrow> int \<Rightarrow> int \<Rightarrow> Part list option" where
  "Read_Read md b index off sz = Read_loop md index b off sz []"

text \<open>Conversion of a 64-bit value to \<open>int\<close> (32 bits, two's complement).\<close>

definition to_int :: "int \<Rightarrow> int" where
  "to_int x = (x + 2 ^ 31) mod 2 ^ 32 - 2 ^ 31"

section \<open>Shared state\<close>

text \<open>
  The globals of btfs.cc (\<open>handle\<close>, \<open>cursor\<close>, \<open>files\<close>, \<open>dirs\<close>) and the state of
  the one torrent the session holds, as the program reads and writes it through
  \<open>handle\<close>. \<open>priority_calls\<close> and \<open>read_piece_calls\<close> record, in call order, the
  arguments of every \<open>handle.piece_priority\<close> and \<open>handle.read_piece\<close> call; a piece
  finishing while a function runs is not modelled (\<open>have_piece\<close> is fixed during a call).
\<close>

record world =
  handle :: nat
  metadata :: torrent_info
  have_piece :: "int \<Rightarrow> bool"
  priority :: "int \<Rightarrow> int"
  priority_calls :: "(int \<times> int) list"
  read_piece_calls :: "int list"
  file_priorities :: "int \<Rightarrow> int"
  download_limit :: int
  upload_limit :: int
  cursor :: int
  files :: "string \<rightharpoonup> (file_entry \<times> int)"
  dirs :: "string \<rightharpoonup> string set"

text \<open>
  The setters of the engine store the value they are given. \<open>piece_priority\<close> does so for
  any index: what the engine does with an index outside \<open>[0, num_pieces)\<close> is its own
  matter. \<open>file_priority\<close> with the priority the file already has changes nothing; what a
  changed file priority does to the priorities of the file's pieces is left out, no
  statement here depends on it.
\<close>

definition piece_priority :: "world \<Rightarrow> int \<Rightarrow> int \<Rightarrow> world" where
  "piece_priority w i p =
     w\<lparr>priority := (priority w)(i := p), priority_calls := priority_calls w @ [(i, p)]\<rparr>"

definition read_piece :: "world \<Rightarrow> int \<Rightarrow> world" where
  "read_piece w i = w\<lparr>read_piece_calls := read_piece_calls w @ [i]\<rparr>"

definition file_priority :: "world \<Rightarrow> int \<Rightarrow> int \<Rightarrow> world" where
  "file_priority w i p = w\<lparr>file_priorities := (file_priorities w)(i := p)\<rparr>"

section \<open>The sliding window\<close>

text \<open>\<open>move_to_next_unfinished\<close> returns its result and the final value of \<open>piece\<close>.\<close>

function move_to_next_unfinished :: "world \<Rightarrow> int \<Rightarrow> bool \<times> int" where
  "move_to_next_unfinished w piece =
     (if piece < ti_num_pieces (metadata w) then
        (if \<not> have_piece w piece then (True, piece)
         else move_to_next_unfinished w (piece + 1))
      else (False, piece))"
  by pat_completeness auto
termination
  by (relation "measure (\<lambda>(w, piece). nat (ti_num_pieces (metadata w) - piece))") auto

declare move_to_next_unfinished.simps [simp del]

lemma move_to_next_unfinished_True:
  "move_to_next_unfinished w p = (True, t) \<Longrightarrow>
     p \<le> t \<and> t < ti_num_pieces (metadata w) \<and> \<not> have_piece w t \<and>
     (\<forall>q. p \<le> q \<and> q < t \<longrightarrow> have_piece w q)"
proof (induction w p rule: move_to_next_unfinished.induct)
  case (1 w piece)
  show ?case
  proof (cases "piece < ti_num_pieces (metadata w) \<and> have_piece w piece")
    case True
    with "1.prems" have "move_to_next_unfinished w (piece + 1) = (True, t)"
      by (simp add: move_to_next_unfinished.simps [of w piece])
    with True "1.IH" have ih: "piece + 1 \<le> t \<and> t < ti_num_pieces (metadata w) \<and>
        \<not> have_piece w t \<and> (\<forall>q. piece + 1 \<le> q \<and> q < t \<longrightarrow> have_piece w q)"
      by simp
    have "have_piece w q" if "piece \<le> q" "q < t" for q
    proof (cases "q = piece")
      case True
      with \<open>piece < ti_num_pieces (metadata w) \<and> have_piece w piece\<close> show ?thesis by simp
    next
      case False
      with that ih show ?thesis by simp
    qed
    with ih show ?thesis by simp
  next
    case False
    with "1.prems" show ?thesis
      by (auto simp: move_to_next_unfinished.simps [of w piece] split: if_splits)
  qed
qed

text \<open>
  The first loop of \<open>jump\<close>. The result says whether the loop ran to its end (\<open>True\<close>)
  or \<open>jump\<close> returned from inside it (\<open>False\<close>), with the final \<open>tail\<close>.
\<close>

function urgent_loop :: "world \<Rightarrow> int \<Rightarrow> int \<Rightarrow> int \<Rightarrow> bool \<times> int \<times> world" where
  "urgent_loop w pl b tail =
     (if b < 0x200000 then
        (case move_to_next_unfinished w tail of
           (False, t) \<Rightarrow> (False, t, w)
         | (True, t) \<Rightarrow> urgent_loop (piece_priority w t 7) pl (b + pl) (t + 1))
      else (True, tail, w))"
  by pat_completeness auto
termination
proof (relation "measure (\<lambda>(w, pl, b, tail). nat (ti_num_pieces (metadata w) - tail))",
    goal_cases)
  case 1
  show ?case by simp
next
  case 2
  then show ?case
    by (auto simp: piece_priority_def dest!: move_to_next_unfinished_True [OF sym])
qed

declare urgent_loop.simps [simp del]

text \<open>
  The second loop of \<open>jump\<close>. With a piece length that is not positive it would not
  end: \<open>None\<close> is that run.
\<close>

partial_function (option) normal_loop ::
  "world \<Rightarrow> int \<Rightarrow> int \<Rightarrow> int \<Rightarrow> int \<Rightarrow> world option" where
  "normal_loop w pl sz ofs tail =
     (if ofs < sz + pl - 1
      then normal_loop (piece_priority w tail 1) pl sz (ofs + pl) (tail + 1)
      else Some w)"

definition jump :: "world \<Rightarrow> int \<Rightarrow> int \<Rightarrow> world option" where
  "jump w piece sz =
     (case move_to_next_unfinished w piece of
        (False, tail) \<Rightarrow> Some w
      | (True, tail) \<Rightarrow>
          (let w = w\<lparr>cursor := tail\<rparr>;
               pl = ti_piece_length (metadata w)
           in case urgent_loop w pl 0 tail of
                (False, tail, w) \<Rightarrow> Some w
              | (True, tail, w) \<Rightarrow> normal_loop w pl sz ((tail - piece) * pl) tail))"

definition advance :: "world \<Rightarrow> world option" where
  "advance w = jump w (cursor w) 0"

section \<open>Read: trigger, finished, size, read\<close>

fun Read_trigger :: "world \<Rightarrow> Part list \<Rightarrow> world" where
  "Read_trigger w [] = w"
| "Read_trigger w (i # parts) =
     Read_trigger (if have_piece w (pr_piece (part i)) then read_piece w (pr_piece (part i)) else w)
       parts"

fun Read_finished :: "Part list \<Rightarrow> bool" where
  "Read_finished [] = True"
| "Read_finished (i # parts) = (if \<not> filled i then False else Read_finished parts)"

definition Read_size :: "Part list \<Rightarrow> int" where
  "Read_size parts = fold (\<lambda>i s. s + pr_length (part i)) parts 0"

text \<open>
  \<open>Read::read\<close>, followed up to the first test of its wait loop: the result is either
  the value returned or \<open>Waits\<close>, the thread entering \<open>pthread_cond_wait\<close>. The reading
  thread holds \<open>lock\<close> from \<open>btfs_read\<close> on, and \<open>Read::copy\<close>, the only writer of
  \<open>filled\<close>, runs in \<open>handle_read_piece_alert\<close> under the same lock: at that first test
  the parts are as \<open>Read::Read\<close> made them.
\<close>

datatype read_outcome = Returned int | Waits

definition Read_read :: "world \<Rightarrow> Part list \<Rightarrow> (read_outcome \<times> world) option" where
  "Read_read w parts =
     (if Read_size parts \<le> 0 then Some (Returned 0, w)
      else
        (let w = Read_trigger w parts in
         case jump w (pr_piece (part (hd parts))) (Read_size parts) of
           None \<Rightarrow> None
         | Some w \<Rightarrow>
             if \<not> Read_finished parts then Some (Waits, w)
             else Some (Returned (Read_size parts), w)))"

section \<open>btfs_read\<close>

definition is_dir :: "world \<Rightarrow> string \<Rightarrow> bool" where
  "is_dir w path = (dirs w path \<noteq> None)"

definition is_file :: "world \<Rightarrow> string \<Rightarrow> bool" where
  "is_file w path = (files w path \<noteq> None)"

datatype errno = ENOENT | EISDIR

text \<open>
  The \<open>new Read(...)\<close> of \<open>btfs_read\<close>: \<open>size\<close> and \<open>offset\<close> are 64-bit there, and
  \<open>Read::Read\<close> takes them as \<open>int\<close>. \<open>files[path]\<close> is there when the call is reached:
  \<open>btfs_read\<close> has tested \<open>is_file\<close>.
\<close>

definition new_Read :: "world \<Rightarrow> string \<Rightarrow> int \<Rightarrow> int \<Rightarrow> Part list option" where
  "new_Read w path sz off =
     (let index = snd (the (files w path)) in
      Read_Read (metadata w) 0 index (to_int off)
        (to_int (min sz (fe_size (file_at (metadata w) index)))))"

text \<open>
  \<open>btfs_read\<close>: the errors are the negated \<open>errno\<close> values it returns. The list \<open>reads\<close>,
  which only the alert handlers walk, is left out.
\<close>

definition btfs_read ::
  "world \<Rightarrow> string \<Rightarrow> int \<Rightarrow> int \<Rightarrow> (errno + read_outcome \<times> world) option" where
  "btfs_read w path sz off =
     (if \<not> is_dir w path \<and> \<not> is_file w path then Some (Inl ENOENT)
      else if is_dir w path then Some (Inl EISDIR)
      else
        (case new_Read w path sz off of
           None \<Rightarrow> None
         | Some r \<Rightarrow> map_option Inr (Read_read w r)))"

section \<open>setup and the metadata alert\<close>

text \<open>The tokens \<open>strtok(p, "/")\<close> yields: the maximal runs of characters other than \<open>/\<close>.\<close>

fun strtok :: "string \<Rightarrow> string \<Rightarrow> string list" where
  "strtok cur [] = (if cur = [] then [] else [cur])"
| "strtok cur (c # cs) =
     (if c = CHR ''/'' then (if cur = [] then strtok [] cs else cur # strtok [] cs)
      else strtok (cur @ [c]) cs)"

text \<open>\<open>dirs[k].insert(x)\<close>: \<open>operator[]\<close> makes the empty set for a new key.\<close>

definition dirs_insert ::
  "(string \<rightharpoonup> string set) \<Rightarrow> string \<Rightarrow> string \<Rightarrow> (string \<rightharpoonup> string set)" where
  "dirs_insert d k x = d(k \<mapsto> insert x (case d k of None \<Rightarrow> {} | Some s \<Rightarrow> s))"

fun setup_path ::
  "(string \<rightharpoonup> string set) \<Rightarrow> string \<Rightarrow> string list \<Rightarrow> (string \<rightharpoonup> string set)" where
  "setup_path d parent [] = d"
| "setup_path d parent (x # xs) =
     (if length x \<le> 0 then setup_path d parent xs
      else setup_path
        (if length parent \<le> 0 then dirs_insert d ''/'' x else dirs_insert d parent x)
        (parent @ ''/'' @ x) xs)"

function setup_loop :: "world \<Rightarrow> torrent_info \<Rightarrow> int \<Rightarrow> world" where
  "setup_loop w md i =
     (if i < num_files md then
        (let w = file_priority w i 0;
             w = w\<lparr>dirs := setup_path (dirs w) [] (strtok [] (fe_path (file_at md i)))\<rparr>;
             w = w\<lparr>files := (files w)(''/'' @ fe_path (file_at md i) \<mapsto> (file_at md i, i))\<rparr>
         in setup_loop w md (i + 1))
      else w)"
  by pat_completeness auto
termination
  by (relation "measure (\<lambda>(w, md, i). nat (num_files md - i))") auto

declare setup_loop.simps [simp del]

definition set_download_limit :: "world \<Rightarrow> int \<Rightarrow> world" where
  "set_download_limit w l = w\<lparr>download_limit := l\<rparr>"

definition set_upload_limit :: "world \<Rightarrow> int \<Rightarrow> world" where
  "set_upload_limit w l = w\<lparr>upload_limit := l\<rparr>"

text \<open>
  \<open>setup()\<close> (the name is an Isabelle command, hence the prefix). The engine's setters
  store the value they are given; the message \<open>setup()\<close> prints is left out.
\<close>

definition btfs_setup :: "world \<Rightarrow> world" where
  "btfs_setup w =
     (let w = set_download_limit w (5 * 1024 * 1024 div 8);
          w = set_upload_limit w (5 * 1024 * 1024 div 8)
      in setup_loop w (metadata w) 0)"

text \<open>
  The alert carries the handle of the torrent it is about; the session holds one torrent
  (\<open>btfs_init\<close> adds one), whose metadata and engine state are in \<open>world\<close>.
\<close>

definition handle_metadata_received_alert :: "world \<Rightarrow> nat \<Rightarrow> world" where
  "handle_metadata_received_alert w a_handle = btfs_setup (w\<lparr>handle := a_handle\<rparr>)"

section \<open>Notions for the statements\<close>

text \<open>
  What the claims speak of and the program has no name for. First the calls to
  \<open>piece_priority\<close> made between two states, and the pieces given priority 7 (the urgent
  sub-window) and priority 1 (the normal sub-window) among them.
\<close>

definition new_calls :: "world \<Rightarrow> world \<Rightarrow> (int \<times> int) list" where
  "new_calls w w' = drop (length (priority_calls w)) (priority_calls w')"

definition urgent_window :: "world \<Rightarrow> world \<Rightarrow> int list" where
  "urgent_window w w' = map fst (filter (\<lambda>c. snd c = 7) (new_calls w w'))"

definition normal_window :: "world \<Rightarrow> world \<Rightarrow> int list" where
  "normal_window w w' = map fst (filter (\<lambda>c. snd c = 1) (new_calls w w'))"

text \<open>
  The pieces at or after \<open>s\<close> that are not downloaded, in increasing order; the number
  of rounds of the first loop of \<open>jump\<close>, \<open>for (b = 0; b < 0x200000; b += pl)\<close>, when no
  round leaves it (2 MiB of piece lengths, rounded up); and the index one past the last
  of the first \<open>urgent_count\<close> undownloaded pieces at or after \<open>s\<close>, which is the value of
  \<open>tail\<close> when that loop has run to its end.
\<close>

definition unfinished_list :: "world \<Rightarrow> int \<Rightarrow> int list" where
  "unfinished_list w s =
     filter (\<lambda>p. \<not> have_piece w p) [s..ti_num_pieces (metadata w) - 1]"

definition urgent_count :: "int \<Rightarrow> nat" where
  "urgent_count pl = nat ((0x200000 + pl - 1) div pl)"

definition urgent_end :: "world \<Rightarrow> int \<Rightarrow> int" where
  "urgent_end w s =
     last (take (urgent_count (ti_piece_length (metadata w))) (unfinished_list w s)) + 1"

text \<open>The largest value of the 32-bit type \<open>int\<close>, in which \<open>jump\<close> computes.\<close>

definition INT_MAX :: int where
  "INT_MAX = 2 ^ 31 - 1"

text \<open>
  A sequence of \<open>advance()\<close> calls: \<open>hs\<close> gives, for each call, which pieces the engine
  has at the time of the call; the result is the state after each call.
\<close>

fun advances :: "world \<Rightarrow> (int \<Rightarrow> bool) list \<Rightarrow> world list option" where
  "advances w [] = Some []"
| "advances w (h # hs) =
     (case advance (w\<lparr>have_piece := h\<rparr>) of
        None \<Rightarrow> None
      | Some w' \<Rightarrow> map_option ((#) w') (advances w' hs))"

text \<open>
  A torrent with a consistent geometry: the piece length is positive, the pieces are as
  many as the total size needs, and every file lies inside the torrent.
\<close>

definition well_formed :: "torrent_info \<Rightarrow> bool" where
  "well_formed md =
     (0 < ti_piece_length md \<and>
      (ti_num_pieces md - 1) * ti_piece_length md < ti_total_size md \<and>
      ti_total_size md \<le> ti_num_pieces md * ti_piece_length md \<and>
      (\<forall>f\<in>set (ti_files md).
         0 \<le> fe_offset f \<and> 0 \<le> fe_size f \<and> fe_offset f + fe_size f \<le> ti_total_size md))"

text \<open>The file ends on a piece boundary or at the end of the torrent.\<close>

definition ends_aligned :: "torrent_info \<Rightarrow> int \<Rightarrow> bool" where
  "ends_aligned md index =
     (let f = file_at md index in
      (fe_offset f + fe_size f) mod ti_piece_length md = 0 \<or>
      fe_offset f + fe_size f = ti_total_size md)"

text \<open>
  The Parts tile the file from the offset \<open>off\<close> on, and the buffer from \<open>b\<close> on: each
  Part has the piece and the in-piece offset of the byte at which the Part before it ended,
  is not empty, stays inside its piece, is unfilled, and is followed by a Part of the next
  piece, if by any.
\<close>

fun tiles :: "torrent_info \<Rightarrow> int \<Rightarrow> int \<Rightarrow> int \<Rightarrow> Part list \<Rightarrow> bool" where
  "tiles md index off b [] = True"
| "tiles md index off b (p # ps) =
     (pr_piece (part p) = (fe_offset (file_at md index) + off) div ti_piece_length md \<and>
      pr_start (part p) = (fe_offset (file_at md index) + off) mod ti_piece_length md \<and>
      0 < pr_length (part p) \<and>
      pr_start (part p) + pr_length (part p) \<le> piece_size md (pr_piece (part p)) \<and>
      buf p = b \<and> \<not> filled p \<and>
      (ps \<noteq> [] \<longrightarrow> pr_piece (part (hd ps)) = pr_piece (part p) + 1) \<and>
      tiles md index (off + pr_length (part p)) (b + pr_length (part p)) ps)"

text \<open>
  The Namespace has been built: \<open>files\<close> and \<open>dirs\<close>, and the settings \<open>setup()\<close> gives the
  engine, are as a run of \<open>setup()\<close> on this metadata left them. (\<open>setup()\<close> is their only
  writer in btfs.cc.)
\<close>

definition namespace_built :: "world \<Rightarrow> bool" where
  "namespace_built w =
     (\<exists>w0. metadata w0 = metadata w \<and>
        files w = files (btfs_setup w0) \<and> dirs w = dirs (btfs_setup w0) \<and>
        file_priorities w = file_priorities (btfs_setup w0) \<and>
        download_limit w = download_limit (btfs_setup w0) \<and>
        upload_limit w = upload_limit (btfs_setup w0))"

section \<open>Inputs for the scenarios\<close>

text \<open>Which pieces are downloaded: none, all, or those below \<open>n\<close>.\<close>

definition none_downloaded :: "int \<Rightarrow> bool" where
  "none_downloaded i = False"

definition all_downloaded :: "int \<Rightarrow> bool" where
  "all_downloaded i = True"

definition downloaded_below :: "int \<Rightarrow> int \<Rightarrow> bool" where
  "downloaded_below n i = (i < n)"

text \<open>
  The program's state before the metadata arrives (globals zero or empty), for a torrent
  with the given metadata and downloaded pieces.
\<close>

definition initial_world :: "torrent_info \<Rightarrow> (int \<Rightarrow> bool) \<Rightarrow> world" where
  "initial_world md hv =
     \<lparr>handle = 0, metadata = md, have_piece = hv, priority = (\<lambda>i. 0), priority_calls = [],
      read_piece_calls = [], file_priorities = (\<lambda>i. 1), download_limit = 0, upload_limit = 0,
      cursor = 0, files = Map.empty, dirs = Map.empty\<rparr>"

text \<open>A torrent that is one file of 50000 bytes in pieces of 16384 bytes.\<close>

definition single_file_torrent :: torrent_info where
  "single_file_torrent =
     \<lparr>ti_piece_length = 16384, ti_num_pieces = 4, ti_total_size = 50000,
      ti_files = [\<lparr>fe_path = ''f'', fe_offset = 0, fe_size = 50000\<rparr>]\<rparr>"

text \<open>A torrent of two files of 50000 bytes each, in pieces of 16384 bytes.\<close>

definition two_file_torrent :: torrent_info where
  "two_file_torrent =
     \<lparr>ti_piece_length = 16384, ti_num_pieces = 7, ti_total_size = 100000,
      ti_files = [\<lparr>fe_path = ''a'', fe_offset = 0, fe_size = 50000\<rparr>,
                  \<lparr>fe_path = ''d/b'', fe_offset = 50000, fe_size = 50000\<rparr>]\<rparr>"

text \<open>A torrent that is one file of 3 GiB, in 4 MiB pieces.\<close>

definition large_file_torrent :: torrent_info where
  "large_file_torrent =
     \<lparr>ti_piece_length = 4194304, ti_num_pieces = 768, ti_total_size = 3221225472,
      ti_files = [\<lparr>fe_path = ''f'', fe_offset = 0, fe_size = 3221225472\<rparr>]\<rparr>"

text \<open>A torrent of two 4 MiB pieces.\<close>

definition big_piece_torrent :: torrent_info where
  "big_piece_torrent =
     \<lparr>ti_piece_length = 4194304, ti_num_pieces = 2, ti_total_size = 8000000,
      ti_files = [\<lparr>fe_path = ''f'', fe_offset = 0, fe_size = 8000000\<rparr>]\<rparr>"

text \<open>A torrent of four 1 MiB pieces.\<close>

definition four_piece_torrent :: torrent_info where
  "four_piece_torrent =
     \<lparr>ti_piece_length = 1048576, ti_num_pieces = 4, ti_total_size = 4194304,
      ti_files = [\<lparr>fe_path = ''f'', fe_offset = 0, fe_size = 4194304\<rparr>]\<rparr>"

section \<open>Notions for the proofs\<close>

text \<open>\<open>w'\<close> differs from \<open>w\<close> in the piece priorities at most.\<close>

definition only_priorities :: "world \<Rightarrow> world \<Rightarrow> bool" where
  "only_priorities w w' =
     (w' = w\<lparr>priority := priority w', priority_calls := priority_calls w'\<rparr>)"

text \<open>
  The number of rounds that the first loop of \<open>jump\<close> still makes when its counter is
  \<open>b\<close> and no round leaves it.
\<close>

definition iterations :: "int \<Rightarrow> int \<Rightarrow> nat" where
  "iterations pl b = (if b < 0x200000 then nat ((0x200000 - b + pl - 1) div pl) else 0)"

text \<open>
  The \<open>dirs\<close> insertions that the walk along one path makes, the insertions and the
  \<open>files\<close> binding of the file \<open>j\<close>, and a list of them applied in order.
\<close>

fun path_inserts :: "string \<Rightarrow> string list \<Rightarrow> (string \<times> string) list" where
  "path_inserts parent [] = []"
| "path_inserts parent (x # xs) =
     (if length x \<le> 0 then path_inserts parent xs
      else (if length parent \<le> 0 then ''/'' else parent, x) # path_inserts (parent @ ''/'' @ x) xs)"

definition insert_all :: "(string \<times> string) list \<Rightarrow> (string \<rightharpoonup> string set) \<Rightarrow> (string \<rightharpoonup> string set)" where
  "insert_all ps d = fold (\<lambda>p d. dirs_insert d (fst p) (snd p)) ps d"

definition file_inserts :: "torrent_info \<Rightarrow> int \<Rightarrow> (string \<times> string) list" where
  "file_inserts md j = path_inserts [] (strtok [] (fe_path (file_at md j)))"

definition file_binding :: "torrent_info \<Rightarrow> int \<Rightarrow> string \<times> file_entry \<times> int" where
  "file_binding md j = (''/'' @ fe_path (file_at md j), file_at md j, j)"

definition bind_all ::
  "(string \<times> file_entry \<times> int) list \<Rightarrow> (string \<rightharpoonup> file_entry \<times> int) \<Rightarrow> (string \<rightharpoonup> file_entry \<times> int)" where
  "bind_all bs f = fold (\<lambda>b f. f(fst b \<mapsto> snd b)) bs f"

section \<open>Evaluation at concrete inputs\<close>

lemma cdiv_nonneg: "0 \<le> a \<Longrightarrow> 0 < b \<Longrightarrow> cdiv a b = a div b"
  by (simp add: cdiv_def sgn_if)

lemma cmod_nonneg: "0 \<le> a \<Longrightarrow> 0 < b \<Longrightarrow> cmod a b = a mod b"
  by (simp add: cmod_def cdiv_nonneg minus_mult_div_eq_mod)

lemma to_int_id: "- (2 ^ 31) \<le> x \<Longrightarrow> x < 2 ^ 31 \<Longrightarrow> to_int x = x"
  by (simp add: to_int_def)

lemmas world_eval =
  initial_world_def none_downloaded_def all_downloaded_def downloaded_below_def

lemmas Read_eval =
  Read_Read_def Read_loop.simps file_at_def map_file_def piece_size_def mk_Part_def
  cdiv_nonneg cmod_nonneg Let_def

lemmas jump_eval =
  jump_def move_to_next_unfinished.simps urgent_loop.simps normal_loop.simps
  piece_priority_def world_eval Let_def

lemmas advance_eval = advance_def jump_eval

lemmas setup_eval =
  btfs_setup_def setup_loop.simps set_download_limit_def set_upload_limit_def
  file_priority_def num_files_def file_at_def dirs_insert_def world_eval Let_def

section \<open>What the window functions do\<close>

lemma move_to_next_unfinished_False:
  "move_to_next_unfinished w p = (False, t) \<Longrightarrow>
     (\<forall>q. p \<le> q \<and> q < ti_num_pieces (metadata w) \<longrightarrow> have_piece w q)"
proof (induction w p rule: move_to_next_unfinished.induct)
  case (1 w piece)
  show ?case
  proof (cases "piece < ti_num_pieces (metadata w)")
    case True
    with "1.prems" have hp: "have_piece w piece"
      and rec: "move_to_next_unfinished w (piece + 1) = (False, t)"
      by (auto simp: move_to_next_unfinished.simps [of w piece] split: if_splits)
    from "1.IH" [OF True _ rec] hp
    have ih: "\<forall>q. piece + 1 \<le> q \<and> q < ti_num_pieces (metadata w) \<longrightarrow> have_piece w q"
      by simp
    show ?thesis
    proof (intro allI impI)
      fix q assume "piece \<le> q \<and> q < ti_num_pieces (metadata w)"
      with ih hp show "have_piece w q"
        by (cases "q = piece") auto
    qed
  next
    case False
    then show ?thesis by auto
  qed
qed

lemma only_priorities_refl: "only_priorities w w"
  by (simp add: only_priorities_def)

lemma urgent_loop_spec:
  "urgent_loop w pl b tail = (ok, t', w') \<Longrightarrow>
     only_priorities w w' \<and>
     (\<exists>us. priority_calls w' = priority_calls w @ map (\<lambda>i. (i, 7)) us \<and>
        priority w' = (\<lambda>i. if i \<in> set us then 7 else priority w i) \<and>
        (\<forall>i\<in>set us. tail \<le> i \<and> i < ti_num_pieces (metadata w) \<and> \<not> have_piece w i \<and> (ok \<longrightarrow> i < t')) \<and>
        (ok \<longrightarrow> tail \<le> t'))"
proof (induction w pl b tail arbitrary: ok t' w' rule: urgent_loop.induct)
  case (1 w pl b tail)
  show ?case
  proof (cases "b < 0x200000")
    case False
    with "1.prems" have "ok" "t' = tail" "w' = w"
      by (simp_all add: urgent_loop.simps [of w pl b tail])
    then show ?thesis
      by (auto simp: only_priorities_refl intro: exI [of _ "[]"])
  next
    case True
    obtain f t where m: "move_to_next_unfinished w tail = (f, t)"
      by (cases "move_to_next_unfinished w tail")
    show ?thesis
    proof (cases f)
      case False
      with True m "1.prems" have "\<not> ok" "w' = w"
        by (simp_all add: urgent_loop.simps [of w pl b tail])
      then show ?thesis
        by (auto simp: only_priorities_refl intro: exI [of _ "[]"])
    next
      case f: True
      let ?w1 = "piece_priority w t 7"
      from True m f "1.prems" have rec: "urgent_loop ?w1 pl (b + pl) (t + 1) = (ok, t', w')"
        by (simp add: urgent_loop.simps [of w pl b tail])
      from m f have mt: "move_to_next_unfinished w tail = (True, t)" by simp
      note tprops = move_to_next_unfinished_True [OF mt]
      from "1.IH" [OF True mt [symmetric] refl rec]
      obtain us where op: "only_priorities ?w1 w'"
        and calls: "priority_calls w' = priority_calls ?w1 @ map (\<lambda>i. (i, 7)) us"
        and prio: "priority w' = (\<lambda>i. if i \<in> set us then 7 else priority ?w1 i)"
        and us: "\<forall>i\<in>set us. t + 1 \<le> i \<and> i < ti_num_pieces (metadata ?w1) \<and> \<not> have_piece ?w1 i \<and> (ok \<longrightarrow> i < t')"
        and tl: "ok \<longrightarrow> t + 1 \<le> t'"
        by blast
      have 1: "only_priorities w w'"
        using op unfolding only_priorities_def piece_priority_def
        by (cases w, cases w') auto
      have 2: "priority_calls w' = priority_calls w @ map (\<lambda>i. (i, 7)) (t # us)"
        using calls by (simp add: piece_priority_def)
      have 3: "priority w' = (\<lambda>i. if i \<in> set (t # us) then 7 else priority w i)"
        using prio by (auto simp: piece_priority_def fun_eq_iff)
      have 4: "\<forall>i\<in>set (t # us). tail \<le> i \<and> i < ti_num_pieces (metadata w) \<and> \<not> have_piece w i \<and> (ok \<longrightarrow> i < t')"
        using us tl tprops by (auto simp: piece_priority_def)
      have 5: "ok \<longrightarrow> tail \<le> t'"
        using tl tprops by auto
      from 1 2 3 4 5 show ?thesis by blast
    qed
  qed
qed

lemma urgent_loop_nonpos:
  "pl \<le> 0 \<Longrightarrow> b < 0x200000 \<Longrightarrow> urgent_loop w pl b tail = (ok, t', w') \<Longrightarrow> \<not> ok"
proof (induction w pl b tail arbitrary: ok t' w' rule: urgent_loop.induct)
  case (1 w pl b tail)
  obtain f t where m: "move_to_next_unfinished w tail = (f, t)"
    by (cases "move_to_next_unfinished w tail")
  show ?case
  proof (cases f)
    case False
    with m "1.prems" show ?thesis
      by (simp add: urgent_loop.simps [of w pl b tail])
  next
    case True
    with m "1.prems" have rec: "urgent_loop (piece_priority w t 7) pl (b + pl) (t + 1) = (ok, t', w')"
      by (simp add: urgent_loop.simps [of w pl b tail])
    from True m have mt: "(True, t) = move_to_next_unfinished w tail" by simp
    from "1.prems" have "b + pl < 0x200000" by simp
    from "1.IH" [OF "1.prems"(2) mt refl "1.prems"(1) this rec] show ?thesis .
  qed
qed

lemma iterations_step:
  assumes "0 < pl" "b < 0x200000"
  shows "iterations pl b = Suc (iterations pl (b + pl))"
proof (cases "b + pl < 0x200000")
  case True
  define x where "x = 0x200000 - (b + pl) + pl - 1"
  have x: "0 \<le> x" "0x200000 - b + pl - 1 = x + pl"
    using assms by (simp_all add: x_def)
  have "(x + pl) div pl = x div pl + 1"
    using assms(1) by (subst div_add_self2) simp_all
  moreover have "0 \<le> x div pl"
    using x(1) assms(1) by (simp add: pos_imp_zdiv_nonneg_iff)
  ultimately have "nat ((x + pl) div pl) = Suc (nat (x div pl))"
    by simp
  moreover have "iterations pl b = nat ((x + pl) div pl)"
    using assms(2) unfolding iterations_def x(2) [symmetric] by simp
  moreover have "iterations pl (b + pl) = nat (x div pl)"
    using True unfolding iterations_def x_def by simp
  ultimately show ?thesis
    by simp
next
  case False
  define y where "y = 0x200000 - b + pl - 1"
  from False assms have "pl \<le> y" "y < 2 * pl"
    by (simp_all add: y_def)
  then have "y div pl = 1"
    using assms(1) by (intro int_div_pos_eq [where r = "y - pl"]) simp_all
  moreover have "iterations pl b = nat (y div pl)"
    using assms(2) unfolding iterations_def y_def by simp
  moreover have "iterations pl (b + pl) = 0"
    using False by (simp add: iterations_def)
  ultimately show ?thesis
    by simp
qed

lemma unfinished_list_none:
  "move_to_next_unfinished w tail = (False, t) \<Longrightarrow> unfinished_list w tail = []"
  using move_to_next_unfinished_False [of w tail t]
  by (auto simp: unfinished_list_def filter_empty_conv)

lemma unfinished_list_step:
  assumes "move_to_next_unfinished w tail = (True, t)"
  shows "unfinished_list w tail = t # unfinished_list w (t + 1)"
proof -
  let ?n = "ti_num_pieces (metadata w)"
  note p = move_to_next_unfinished_True [OF assms]
  from p have "[tail..?n - 1] = [tail..t - 1] @ t # [t + 1..?n - 1]"
    by (intro upto_split3) simp_all
  moreover from p have "filter (\<lambda>p. \<not> have_piece w p) [tail..t - 1] = []"
    by (auto simp: filter_empty_conv)
  ultimately show ?thesis
    using p by (simp add: unfinished_list_def)
qed

lemma unfinished_list_frame:
  "metadata w' = metadata w \<Longrightarrow> have_piece w' = have_piece w \<Longrightarrow>
     unfinished_list w' s = unfinished_list w s"
  by (simp add: unfinished_list_def)

lemma urgent_loop_exact:
  assumes "0 < pl" "urgent_loop w pl b tail = (ok, t', w')"
  shows "priority_calls w' =
      priority_calls w @ map (\<lambda>i. (i, 7)) (take (iterations pl b) (unfinished_list w tail)) \<and>
    (ok \<longleftrightarrow> iterations pl b \<le> length (unfinished_list w tail)) \<and>
    (ok \<longrightarrow> t' = last ((tail - 1) # take (iterations pl b) (unfinished_list w tail)) + 1)"
  using assms
proof (induction w pl b tail arbitrary: ok t' w' rule: urgent_loop.induct)
  case (1 w pl b tail)
  show ?case
  proof (cases "b < 0x200000")
    case False
    with "1.prems" have "ok" "t' = tail" "w' = w"
      by (simp_all add: urgent_loop.simps [of w pl b tail])
    with False show ?thesis
      by (simp add: iterations_def)
  next
    case True
    obtain f t where m: "move_to_next_unfinished w tail = (f, t)"
      by (cases "move_to_next_unfinished w tail")
    from iterations_step [OF "1.prems"(1) True]
    have it: "iterations pl b = Suc (iterations pl (b + pl))" .
    show ?thesis
    proof (cases f)
      case False
      with True m "1.prems" have "\<not> ok" "w' = w"
        by (simp_all add: urgent_loop.simps [of w pl b tail])
      moreover from False m have "unfinished_list w tail = []"
        by (intro unfinished_list_none [of w tail t]) simp
      ultimately show ?thesis
        by (simp add: it)
    next
      case f: True
      let ?w1 = "piece_priority w t 7"
      let ?K = "iterations pl (b + pl)"
      let ?U = "unfinished_list w (t + 1)"
      from m f have mt: "move_to_next_unfinished w tail = (True, t)" by simp
      from True mt "1.prems" have rec: "urgent_loop ?w1 pl (b + pl) (t + 1) = (ok, t', w')"
        by (simp add: urgent_loop.simps [of w pl b tail])
      have fr: "unfinished_list ?w1 (t + 1) = ?U"
        by (rule unfinished_list_frame) (simp_all add: piece_priority_def)
      from "1.IH" [OF True mt [symmetric] refl "1.prems"(1) rec]
      have c: "priority_calls w' = priority_calls ?w1 @ map (\<lambda>i. (i, 7)) (take ?K ?U)"
        and o: "ok \<longleftrightarrow> ?K \<le> length ?U"
        and l: "ok \<longrightarrow> t' = last (t # take ?K ?U) + 1"
        unfolding fr by simp_all
      have u: "unfinished_list w tail = t # ?U"
        by (rule unfinished_list_step [OF mt])
      have 1: "priority_calls w' =
          priority_calls w @ map (\<lambda>i. (i, 7)) (take (iterations pl b) (unfinished_list w tail))"
        using c by (simp add: it u piece_priority_def)
      have 2: "ok \<longleftrightarrow> iterations pl b \<le> length (unfinished_list w tail)"
        using o by (simp add: it u)
      have 3: "ok \<longrightarrow> t' = last ((tail - 1) # take (iterations pl b) (unfinished_list w tail)) + 1"
        using l by (simp add: it u)
      from 1 2 3 show ?thesis by blast
    qed
  qed
qed

lemma iterations_0: "iterations pl 0 = urgent_count pl"
  by (simp add: iterations_def urgent_count_def)

lemma urgent_count_pos: "0 < pl \<Longrightarrow> 0 < urgent_count pl"
  using iterations_step [of pl 0] by (simp add: iterations_0)

lemma unfinished_list_sorted: "sorted_wrt (<) (unfinished_list w s)"
  unfolding unfinished_list_def by (rule sorted_wrt_filter) simp

lemma strictly_sorted_last:
  "sorted_wrt (<) xs \<Longrightarrow> xs \<noteq> [] \<Longrightarrow> hd xs + int (length xs) \<le> last xs + (1 :: int)"
proof (induction xs)
  case Nil
  then show ?case by simp
next
  case (Cons x xs)
  show ?case
  proof (cases xs)
    case Nil
    then show ?thesis by simp
  next
    case (Cons y ys)
    with Cons.prems have "x < hd xs" by simp
    moreover from Cons Cons.prems Cons.IH have "hd xs + int (length xs) \<le> last xs + 1" by simp
    ultimately show ?thesis using Cons by simp
  qed
qed

lemma urgent_end_bounds:
  assumes "0 < ti_piece_length (metadata w)"
    and "urgent_count (ti_piece_length (metadata w)) \<le> length (unfinished_list w s)"
  shows "s + int (urgent_count (ti_piece_length (metadata w))) \<le> urgent_end w s"
proof -
  let ?K = "urgent_count (ti_piece_length (metadata w))"
  let ?T = "take ?K (unfinished_list w s)"
  from urgent_count_pos [OF assms(1)] assms(2) have ne: "?T \<noteq> []" and len: "length ?T = ?K"
    by auto
  have "sorted_wrt (<) ?T"
    by (rule sorted_wrt_take) (rule unfinished_list_sorted)
  from strictly_sorted_last [OF this ne] have "hd ?T + int ?K \<le> last ?T + 1"
    unfolding len .
  moreover from ne have "hd ?T \<in> set (unfinished_list w s)"
    by (metis hd_in_set in_set_takeD)
  then have "s \<le> hd ?T"
    by (simp add: unfinished_list_def)
  ultimately show ?thesis
    by (simp add: urgent_end_def)
qed

lemma normal_loop_spec:
  assumes pl: "0 < pl"
  shows "\<exists>k::nat. normal_loop w pl sz ofs tail =
      Some (w\<lparr>priority := (\<lambda>i. if tail \<le> i \<and> i < tail + int k then 1 else priority w i),
              priority_calls := priority_calls w @ map (\<lambda>i. (i, 1)) [tail..tail + int k - 1]\<rparr>) \<and>
      sz + pl - 1 \<le> ofs + int k * pl \<and>
      (0 < k \<longrightarrow> ofs + (int k - 1) * pl < sz + pl - 1)"
proof (induction "nat (sz + pl - 1 - ofs)" arbitrary: w ofs tail rule: less_induct)
  case less
  show ?case
  proof (cases "ofs < sz + pl - 1")
    case False
    then have "normal_loop w pl sz ofs tail = Some w"
      by (simp add: normal_loop.simps [of w pl sz ofs tail])
    moreover have "(\<lambda>i. if tail \<le> i \<and> i < tail + int 0 then 1 else priority w i) = priority w"
      by (auto simp: fun_eq_iff)
    ultimately show ?thesis
      using False by (intro exI [of _ 0]) simp
  next
    case True
    let ?w1 = "piece_priority w tail 1"
    from True pl have "nat (sz + pl - 1 - (ofs + pl)) < nat (sz + pl - 1 - ofs)"
      by simp
    from less [OF this, of ?w1 "tail + 1"]
    obtain k :: nat where
      r: "normal_loop ?w1 pl sz (ofs + pl) (tail + 1) =
        Some (?w1\<lparr>priority := (\<lambda>i. if tail + 1 \<le> i \<and> i < tail + 1 + int k then 1 else priority ?w1 i),
              priority_calls := priority_calls ?w1 @ map (\<lambda>i. (i, 1)) [tail + 1..tail + 1 + int k - 1]\<rparr>)"
      and b1: "sz + pl - 1 \<le> ofs + pl + int k * pl"
      and b2: "0 < k \<longrightarrow> ofs + pl + (int k - 1) * pl < sz + pl - 1"
      by blast
    have p: "(\<lambda>i. if tail + 1 \<le> i \<and> i < tail + 1 + int k then 1 else priority ?w1 i) =
        (\<lambda>i. if tail \<le> i \<and> i < tail + int (Suc k) then 1 else priority w i)"
      by (auto simp: piece_priority_def fun_eq_iff)
    have c: "priority_calls ?w1 @ map (\<lambda>i. (i, 1)) [tail + 1..tail + 1 + int k - 1] =
        priority_calls w @ map (\<lambda>i. (i, 1)) [tail..tail + int (Suc k) - 1]"
      by (simp add: piece_priority_def upto_rec1 [of tail "tail + int k"])
    have e: "normal_loop w pl sz ofs tail = normal_loop ?w1 pl sz (ofs + pl) (tail + 1)"
      using True by (simp add: normal_loop.simps [of w pl sz ofs tail])
    have 1: "normal_loop w pl sz ofs tail =
      Some (w\<lparr>priority := (\<lambda>i. if tail \<le> i \<and> i < tail + int (Suc k) then 1 else priority w i),
              priority_calls := priority_calls w @ map (\<lambda>i. (i, 1)) [tail..tail + int (Suc k) - 1]\<rparr>)"
      unfolding e r p c by (simp add: piece_priority_def)
    have 2: "sz + pl - 1 \<le> ofs + int (Suc k) * pl"
      using b1 by (simp add: algebra_simps)
    have 3: "ofs + (int (Suc k) - 1) * pl < sz + pl - 1"
    proof (cases "k = 0")
      case True
      with \<open>ofs < sz + pl - 1\<close> show ?thesis by simp
    next
      case False
      with b2 show ?thesis by (simp add: algebra_simps)
    qed
    from 1 2 3 show ?thesis by blast
  qed
qed

lemma jump_none:
  "move_to_next_unfinished w s = (False, t) \<Longrightarrow> jump w s n = Some w"
  by (simp add: jump_def)

lemma jump_early:
  "move_to_next_unfinished w s = (True, c) \<Longrightarrow>
   urgent_loop (w\<lparr>cursor := c\<rparr>) (ti_piece_length (metadata w)) 0 c = (False, t, w1) \<Longrightarrow>
   jump w s n = Some w1"
  by (simp add: jump_def Let_def)

lemma jump_full:
  "move_to_next_unfinished w s = (True, c) \<Longrightarrow>
   urgent_loop (w\<lparr>cursor := c\<rparr>) (ti_piece_length (metadata w)) 0 c = (True, t, w1) \<Longrightarrow>
   jump w s n = normal_loop w1 (ti_piece_length (metadata w)) n ((t - s) * ti_piece_length (metadata w)) t"
  by (simp add: jump_def Let_def)

lemma windows_of_calls:
  "priority_calls w' = priority_calls w @ map (\<lambda>i. (i, 7)) us @ map (\<lambda>i. (i, 1)) ns \<Longrightarrow>
     urgent_window w w' = us \<and> normal_window w w' = ns"
  by (simp add: urgent_window_def normal_window_def new_calls_def filter_map o_def)

text \<open>The three ways through \<open>jump\<close>, with what each leaves behind.\<close>

lemma jump_cases:
  obtains
    (none) "\<forall>q. s \<le> q \<and> q < ti_num_pieces (metadata w) \<longrightarrow> have_piece w q"
      "jump w s n = Some w"
  | (early) c us w' where
      "s \<le> c" "c < ti_num_pieces (metadata w)" "\<not> have_piece w c"
      "\<forall>q. s \<le> q \<and> q < c \<longrightarrow> have_piece w q"
      "jump w s n = Some w'"
      "w' = w\<lparr>cursor := c, priority := priority w', priority_calls := priority_calls w'\<rparr>"
      "priority_calls w' = priority_calls w @ map (\<lambda>i. (i, 7)) us"
      "priority w' = (\<lambda>i. if i \<in> set us then 7 else priority w i)"
      "\<forall>i\<in>set us. c \<le> i \<and> i < ti_num_pieces (metadata w) \<and> \<not> have_piece w i"
  | (full) c us t k w' where
      "s \<le> c" "c < ti_num_pieces (metadata w)" "\<not> have_piece w c"
      "\<forall>q. s \<le> q \<and> q < c \<longrightarrow> have_piece w q"
      "jump w s n = Some w'"
      "w' = w\<lparr>cursor := c, priority := priority w', priority_calls := priority_calls w'\<rparr>"
      "priority_calls w' =
         priority_calls w @ map (\<lambda>i. (i, 7)) us @ map (\<lambda>i. (i, 1)) [t..t + int k - 1]"
      "priority w' = (\<lambda>i. if t \<le> i \<and> i < t + int k then 1 else if i \<in> set us then 7 else priority w i)"
      "\<forall>i\<in>set us. c \<le> i \<and> i < ti_num_pieces (metadata w) \<and> \<not> have_piece w i \<and> i < t"
      "c \<le> t" "0 < ti_piece_length (metadata w)"
      "n + ti_piece_length (metadata w) - 1 \<le> (t + int k - s) * ti_piece_length (metadata w)"
      "0 < k \<longrightarrow> (t + int k - 1 - s) * ti_piece_length (metadata w) < n + ti_piece_length (metadata w) - 1"
proof -
  let ?pl = "ti_piece_length (metadata w)"
  obtain f c where m: "move_to_next_unfinished w s = (f, c)"
    by (cases "move_to_next_unfinished w s")
  show thesis
  proof (cases f)
    case False
    with m have "move_to_next_unfinished w s = (False, c)" by simp
    from move_to_next_unfinished_False [OF this] jump_none [OF this]
    show thesis by (rule none)
  next
    case True
    with m have mt: "move_to_next_unfinished w s = (True, c)" by simp
    note cp = move_to_next_unfinished_True [OF mt]
    let ?w0 = "w\<lparr>cursor := c\<rparr>"
    obtain ok t w1 where u: "urgent_loop ?w0 ?pl 0 c = (ok, t, w1)"
      by (cases "urgent_loop ?w0 ?pl 0 c")
    from urgent_loop_spec [OF u]
    obtain us where op: "only_priorities ?w0 w1"
      and calls: "priority_calls w1 = priority_calls ?w0 @ map (\<lambda>i. (i, 7)) us"
      and prio: "priority w1 = (\<lambda>i. if i \<in> set us then 7 else priority ?w0 i)"
      and us: "\<forall>i\<in>set us. c \<le> i \<and> i < ti_num_pieces (metadata ?w0) \<and> \<not> have_piece ?w0 i \<and> (ok \<longrightarrow> i < t)"
      and tl: "ok \<longrightarrow> c \<le> t"
      by blast
    from op have w1: "w1 = w\<lparr>cursor := c, priority := priority w1, priority_calls := priority_calls w1\<rparr>"
      unfolding only_priorities_def by (cases w, cases w1) auto
    show thesis
    proof (cases ok)
      case False
      with u have "urgent_loop ?w0 ?pl 0 c = (False, t, w1)" by simp
      from jump_early [OF mt this] have j: "jump w s n = Some w1" .
      show thesis
        using cp j w1 calls prio us by (intro early [of c w1 us]) auto
    next
      case ok: True
      with u have u': "urgent_loop ?w0 ?pl 0 c = (True, t, w1)" by simp
      have pl: "0 < ?pl"
      proof (rule ccontr)
        assume "\<not> 0 < ?pl"
        then have "?pl \<le> 0" by simp
        from urgent_loop_nonpos [OF this _ u'] show False by simp
      qed
      from normal_loop_spec [OF pl, of w1 n "(t - s) * ?pl" t]
      obtain k :: nat where
        nl: "normal_loop w1 ?pl n ((t - s) * ?pl) t =
          Some (w1\<lparr>priority := (\<lambda>i. if t \<le> i \<and> i < t + int k then 1 else priority w1 i),
              priority_calls := priority_calls w1 @ map (\<lambda>i. (i, 1)) [t..t + int k - 1]\<rparr>)"
          (is "_ = Some ?w2")
        and b1: "n + ?pl - 1 \<le> (t - s) * ?pl + int k * ?pl"
        and b2: "0 < k \<longrightarrow> (t - s) * ?pl + (int k - 1) * ?pl < n + ?pl - 1"
        by blast
      from jump_full [OF mt u'] nl have j: "jump w s n = Some ?w2" by simp
      have 6: "?w2 = w\<lparr>cursor := c, priority := priority ?w2, priority_calls := priority_calls ?w2\<rparr>"
        by (subst w1) simp
      have 7: "priority_calls ?w2 =
         priority_calls w @ map (\<lambda>i. (i, 7)) us @ map (\<lambda>i. (i, 1)) [t..t + int k - 1]"
        using calls by simp
      have 8: "priority ?w2 = (\<lambda>i. if t \<le> i \<and> i < t + int k then 1 else if i \<in> set us then 7 else priority w i)"
        using prio by (simp add: fun_eq_iff)
      have 9: "\<forall>i\<in>set us. c \<le> i \<and> i < ti_num_pieces (metadata w) \<and> \<not> have_piece w i \<and> i < t"
        using us ok by simp
      have 10: "n + ?pl - 1 \<le> (t + int k - s) * ?pl"
        using b1 by (simp add: algebra_simps)
      have 11: "0 < k \<longrightarrow> (t + int k - 1 - s) * ?pl < n + ?pl - 1"
        using b2 by (simp add: algebra_simps)
      from tl ok have 12: "c \<le> t" by simp
      show thesis
        using cp j 6 7 8 9 10 11 12 pl by (intro full [of c ?w2 us t k]) auto
    qed
  qed
qed

lemma jump_returns:
  "\<exists>w'. jump w s n = Some w' \<and> read_piece_calls w' = read_piece_calls w"
proof (cases rule: jump_cases [of s w n])
  case none
  then show ?thesis by simp
next
  case (early c us w')
  have "read_piece_calls w' = read_piece_calls w" by (subst early(6)) simp
  with early(5) show ?thesis by simp
next
  case (full c us t k w')
  have "read_piece_calls w' = read_piece_calls w" by (subst full(6)) simp
  with full(5) show ?thesis by simp
qed

lemma advance_step:
  "\<exists>w'. advance w = Some w' \<and> cursor w \<le> cursor w' \<and>
     (cursor w' \<noteq> cursor w \<longrightarrow> \<not> have_piece w (cursor w'))"
  unfolding advance_def
proof (cases rule: jump_cases [of "cursor w" w 0])
  case none
  then show "\<exists>w'. jump w (cursor w) 0 = Some w' \<and> cursor w \<le> cursor w' \<and>
     (cursor w' \<noteq> cursor w \<longrightarrow> \<not> have_piece w (cursor w'))" by simp
next
  case (early c us w')
  have "cursor w' = c" by (subst early(6)) simp
  with early(1,3,5) show "\<exists>w'. jump w (cursor w) 0 = Some w' \<and> cursor w \<le> cursor w' \<and>
     (cursor w' \<noteq> cursor w \<longrightarrow> \<not> have_piece w (cursor w'))" by simp
next
  case (full c us t k w')
  have "cursor w' = c" by (subst full(6)) simp
  with full(1,3,5) show "\<exists>w'. jump w (cursor w) 0 = Some w' \<and> cursor w \<le> cursor w' \<and>
     (cursor w' \<noteq> cursor w \<longrightarrow> \<not> have_piece w (cursor w'))" by simp
qed

lemma advances_spec:
  "\<exists>ws. advances w hs = Some ws \<and> length ws = length hs \<and>
     (\<forall>k<length hs. cursor ((w # ws) ! k) \<le> cursor (ws ! k) \<and>
        (cursor (ws ! k) \<noteq> cursor ((w # ws) ! k) \<longrightarrow> \<not> (hs ! k) (cursor (ws ! k))))"
proof (induction hs arbitrary: w)
  case Nil
  show ?case by simp
next
  case (Cons h hs)
  from advance_step [of "w\<lparr>have_piece := h\<rparr>"]
  obtain w' where a: "advance (w\<lparr>have_piece := h\<rparr>) = Some w'"
    and le: "cursor w \<le> cursor w'"
    and mv: "cursor w' \<noteq> cursor w \<longrightarrow> \<not> h (cursor w')"
    by auto
  from Cons.IH [of w']
  obtain ws where r: "advances w' hs = Some ws" and len: "length ws = length hs"
    and ih: "\<forall>k<length hs. cursor ((w' # ws) ! k) \<le> cursor (ws ! k) \<and>
        (cursor (ws ! k) \<noteq> cursor ((w' # ws) ! k) \<longrightarrow> \<not> (hs ! k) (cursor (ws ! k)))"
    by blast
  have "\<forall>k<length (h # hs). cursor ((w # w' # ws) ! k) \<le> cursor ((w' # ws) ! k) \<and>
        (cursor ((w' # ws) ! k) \<noteq> cursor ((w # w' # ws) ! k) \<longrightarrow>
           \<not> ((h # hs) ! k) (cursor ((w' # ws) ! k)))"
  proof (intro allI impI)
    fix k assume "k < length (h # hs)"
    then show "cursor ((w # w' # ws) ! k) \<le> cursor ((w' # ws) ! k) \<and>
        (cursor ((w' # ws) ! k) \<noteq> cursor ((w # w' # ws) ! k) \<longrightarrow>
           \<not> ((h # hs) ! k) (cursor ((w' # ws) ! k)))"
      using le mv ih by (cases k) auto
  qed
  with a r len show ?case by simp
qed

lemma have_monotone:
  assumes "\<forall>k. Suc k < length hs \<longrightarrow> (\<forall>p. (hs ! k) p \<longrightarrow> (hs ! Suc k) p)"
  shows "j \<le> k \<Longrightarrow> k < length hs \<Longrightarrow> (hs ! j) p \<Longrightarrow> (hs ! k) p"
proof (induction k)
  case 0
  then show ?case by simp
next
  case (Suc k)
  show ?case
  proof (cases "j = Suc k")
    case True
    with Suc.prems show ?thesis by simp
  next
    case False
    with Suc.prems have "j \<le> k" "k < length hs" by simp_all
    from Suc.IH [OF this Suc.prems(3)] assms Suc.prems(2) show ?thesis by blast
  qed
qed

section \<open>The claims about the window\<close>

text \<open>
  C4: for every call \<open>jump(s, n)\<close>: if some piece at or after \<open>s\<close> is not downloaded,
  the call returns with the cursor at the smallest such piece index; if every piece at or
  after \<open>s\<close> is downloaded, the call returns the state it was given: no priority, no
  priority call and no cursor change.
\<close>

theorem C4_cursor_or_noop:
  "((\<exists>p. s \<le> p \<and> p < ti_num_pieces (metadata w) \<and> \<not> have_piece w p) \<longrightarrow>
      (\<exists>w'. jump w s n = Some w' \<and>
         s \<le> cursor w' \<and> cursor w' < ti_num_pieces (metadata w) \<and>
         \<not> have_piece w (cursor w') \<and>
         (\<forall>q. s \<le> q \<and> q < cursor w' \<longrightarrow> have_piece w q))) \<and>
   ((\<forall>p. s \<le> p \<and> p < ti_num_pieces (metadata w) \<longrightarrow> have_piece w p) \<longrightarrow>
      jump w s n = Some w)"
proof (cases rule: jump_cases [of s w n])
  case none
  then show ?thesis by auto
next
  case (early c us w')
  have "cursor w' = c" by (subst early(6)) simp
  with early(1-5) show ?thesis by auto
next
  case (full c us t k w')
  have "cursor w' = c" by (subst full(6)) simp
  with full(1-5) show ?thesis by auto
qed

text \<open>
  C4 at two inputs: two pieces of which the first is downloaded (the cursor becomes 1),
  and the same torrent with every piece downloaded (nothing changes).
\<close>

theorem C4_witness:
  "(\<exists>p. (0::int) \<le> p \<and> p < ti_num_pieces (metadata (initial_world big_piece_torrent (downloaded_below 1))) \<and>
        \<not> have_piece (initial_world big_piece_torrent (downloaded_below 1)) p) \<and>
   map_option cursor (jump (initial_world big_piece_torrent (downloaded_below 1)) 0 4096) = Some 1 \<and>
   jump (initial_world big_piece_torrent all_downloaded) 0 4096 =
     Some (initial_world big_piece_torrent all_downloaded)"
proof -
  let ?w = "initial_world big_piece_torrent (downloaded_below 1)"
  let ?v = "initial_world big_piece_torrent all_downloaded"
  have h: "\<exists>p. (0::int) \<le> p \<and> p < ti_num_pieces (metadata ?w) \<and> \<not> have_piece ?w p"
    by (rule exI [of _ 1]) (simp add: world_eval big_piece_torrent_def)
  with C4_cursor_or_noop [of 0 ?w 4096]
  obtain w' where "jump ?w 0 4096 = Some w'" "cursor w' < ti_num_pieces (metadata ?w)"
    "\<not> have_piece ?w (cursor w')"
    by blast
  then have c: "map_option cursor (jump ?w 0 4096) = Some 1"
    by (simp add: world_eval big_piece_torrent_def)
  have "\<forall>p. 0 \<le> p \<and> p < ti_num_pieces (metadata ?v) \<longrightarrow> have_piece ?v p"
    by (simp add: world_eval)
  with C4_cursor_or_noop [of 0 ?v 4096] have "jump ?v 0 4096 = Some ?v"
    by blast
  with h c show ?thesis by blast
qed

text \<open>
  C5: every call \<open>jump(s, n)\<close> returns, and in the state it returns every piece it
  placed in the urgent sub-window has priority 7, every piece it placed in the normal
  sub-window has priority 1, so each urgent piece has a strictly higher priority than each
  normal piece; and no piece with an index below \<open>s\<close> has its priority changed. The calls
  made are the urgent ones followed by the normal ones, and no others.
\<close>

theorem C5_priority_ordering:
  "\<exists>w'. jump w s n = Some w' \<and>
     new_calls w w' = map (\<lambda>i. (i, 7)) (urgent_window w w') @ map (\<lambda>i. (i, 1)) (normal_window w w') \<and>
     (\<forall>i\<in>set (urgent_window w w'). priority w' i = 7) \<and>
     (\<forall>j\<in>set (normal_window w w'). priority w' j = 1) \<and>
     (\<forall>i\<in>set (urgent_window w w'). \<forall>j\<in>set (normal_window w w'). priority w' j < priority w' i) \<and>
     (\<forall>i. i < s \<longrightarrow> priority w' i = priority w i)"
proof (cases rule: jump_cases [of s w n])
  case none
  have "priority_calls w = priority_calls w @ map (\<lambda>i. (i, 7)) [] @ map (\<lambda>i. (i, 1)) []"
    by simp
  from windows_of_calls [OF this] none(2) show ?thesis
    by (simp add: new_calls_def)
next
  case (early c us w')
  from early(7) have "priority_calls w' = priority_calls w @ map (\<lambda>i. (i, 7)) us @ map (\<lambda>i. (i, 1)) []"
    by simp
  from windows_of_calls [OF this] have win: "urgent_window w w' = us" "normal_window w w' = []"
    by simp_all
  have "new_calls w w' = map (\<lambda>i. (i, 7)) us"
    using early(7) by (simp add: new_calls_def)
  moreover have "\<forall>i\<in>set us. priority w' i = 7"
    by (subst early(8)) simp
  moreover have "\<forall>i. i < s \<longrightarrow> priority w' i = priority w i"
    using early(1,9) by (subst early(8)) auto
  ultimately show ?thesis
    using early(5) win by simp
next
  case (full c us t k w')
  from windows_of_calls [OF full(7)]
  have win: "urgent_window w w' = us" "normal_window w w' = [t..t + int k - 1]"
    by simp_all
  have 1: "new_calls w w' = map (\<lambda>i. (i, 7)) us @ map (\<lambda>i. (i, 1)) [t..t + int k - 1]"
    using full(7) by (simp add: new_calls_def)
  have 2: "\<forall>i\<in>set us. priority w' i = 7"
    using full(9) by (subst full(8)) auto
  have 3: "\<forall>j\<in>set [t..t + int k - 1]. priority w' j = 1"
    by (subst full(8)) auto
  have 4: "\<forall>i. i < s \<longrightarrow> priority w' i = priority w i"
    using full(1,9,10) by (subst full(8)) auto
  from 1 2 3 4 show ?thesis
    using full(5) win by simp
qed

text \<open>
  C5 at an input: two undownloaded 4 MiB pieces and a read of 4096 bytes at piece 0; the
  urgent sub-window is piece 0 and the normal sub-window is piece 1.
\<close>

theorem C5_witness:
  "map_option (urgent_window (initial_world big_piece_torrent none_downloaded))
      (jump (initial_world big_piece_torrent none_downloaded) 0 4096) = Some [0] \<and>
   map_option (normal_window (initial_world big_piece_torrent none_downloaded))
      (jump (initial_world big_piece_torrent none_downloaded) 0 4096) = Some [1] \<and>
   map_option (\<lambda>w'. (priority w' 0, priority w' 1))
      (jump (initial_world big_piece_torrent none_downloaded) 0 4096) = Some (7, 1)"
proof -
  let ?w = "initial_world big_piece_torrent none_downloaded"
  have c: "map_option priority_calls (jump ?w 0 4096) = Some [(0, 7), (1, 1)]"
    by (simp add: jump_eval big_piece_torrent_def)
  from C5_priority_ordering [of ?w 0 4096]
  obtain w' where j: "jump ?w 0 4096 = Some w'"
    and u: "\<forall>i\<in>set (urgent_window ?w w'). priority w' i = 7"
    and n: "\<forall>j\<in>set (normal_window ?w w'). priority w' j = 1"
    by blast
  from c j have "priority_calls w' = [(0, 7), (1, 1)]" by simp
  then have win: "urgent_window ?w w' = [0]" "normal_window ?w w' = [1]"
    by (simp_all add: urgent_window_def normal_window_def new_calls_def world_eval)
  with u n have "priority w' 0 = 7" "priority w' 1 = 1" by simp_all
  with j win show ?thesis by simp
qed

text \<open>
  C2 as stated fails: with four undownloaded 1 MiB pieces, \<open>jump(0, 4096)\<close> gives pieces
  0 and 1 priority 7 and no piece priority 1: the normal sub-window is empty, and covers
  none of the 4096 bytes.
\<close>

theorem C2_empty_normal_window_counterexample:
  "\<not> have_piece (initial_world four_piece_torrent none_downloaded) 0 \<and>
   map_option (normal_window (initial_world four_piece_torrent none_downloaded))
     (jump (initial_world four_piece_torrent none_downloaded) 0 4096) = Some []"
  by (simp add: jump_eval four_piece_torrent_def normal_window_def new_calls_def)

text \<open>
  C2 (as amended): the second loop of \<open>jump\<close> measures from the start of piece \<open>s\<close>, not
  from the end of the urgent sub-window. Let \<open>pl\<close> be the piece length, positive, and
  \<open>K = urgent_count pl\<close> the number of rounds of the first loop, and let at least \<open>K\<close>
  pieces at or after \<open>s\<close> be undownloaded, so that the first loop runs to its end, at
  \<open>t = urgent_end w s\<close>. \<open>jump\<close> computes in \<open>int\<close>: let \<open>n \<ge> 0\<close> and let \<open>(t - s) * pl\<close>,
  \<open>n + 2 * pl\<close> and \<open>t + n + pl\<close> be at most \<open>INT_MAX\<close>. Then \<open>jump(s, n)\<close> returns; the urgent
  sub-window is the first \<open>K\<close> undownloaded pieces at or after \<open>s\<close>, in order; the normal
  sub-window is the run of \<open>k\<close> consecutive pieces \<open>t, ..., t + k - 1\<close> that starts one past
  the last urgent piece; and \<open>k\<close> is the least number with
  \<open>(t + k - s) * pl \<ge> n + pl - 1\<close>: the two sub-windows together reach \<open>n + pl - 1\<close> bytes
  past the start of piece \<open>s\<close>, and the normal sub-window is empty when the urgent one
  already does. The last three conjuncts bound the final values of the counters \<open>b\<close> and
  \<open>o\<close> and of \<open>tail\<close>, the largest values that \<open>jump\<close> computes; the smallest are \<open>0\<close> and
  \<open>s\<close>. So the call makes no signed overflow, and the integers of the model are the
  \<open>int\<close>s of the program.
\<close>

theorem C2_windows_reach_read_end:
  assumes "0 < ti_piece_length (metadata w)"
    and "urgent_count (ti_piece_length (metadata w)) \<le> length (unfinished_list w s)"
    and "0 \<le> n"
    and "(urgent_end w s - s) * ti_piece_length (metadata w) \<le> INT_MAX"
    and "n + 2 * ti_piece_length (metadata w) \<le> INT_MAX"
    and "urgent_end w s + n + ti_piece_length (metadata w) \<le> INT_MAX"
  shows "\<exists>w' k. jump w s n = Some w' \<and>
     urgent_window w w' =
       take (urgent_count (ti_piece_length (metadata w))) (unfinished_list w s) \<and>
     normal_window w w' = [urgent_end w s..urgent_end w s + int k - 1] \<and>
     n + ti_piece_length (metadata w) - 1
       \<le> (urgent_end w s + int k - s) * ti_piece_length (metadata w) \<and>
     (0 < k \<longrightarrow> (urgent_end w s + int k - 1 - s) * ti_piece_length (metadata w)
        < n + ti_piece_length (metadata w) - 1) \<and>
     int (urgent_count (ti_piece_length (metadata w))) * ti_piece_length (metadata w) \<le> INT_MAX \<and>
     (urgent_end w s + int k - s) * ti_piece_length (metadata w) \<le> INT_MAX \<and>
     urgent_end w s + int k \<le> INT_MAX"
proof -
  let ?pl = "ti_piece_length (metadata w)"
  let ?K = "urgent_count ?pl"
  let ?U = "unfinished_list w s"
  let ?t = "urgent_end w s"
  note Kpos = urgent_count_pos [OF assms(1)]
  with assms(2) have ne: "take ?K ?U \<noteq> []"
    by auto
  obtain f c where m: "move_to_next_unfinished w s = (f, c)"
    by (cases "move_to_next_unfinished w s")
  have f
  proof (rule ccontr)
    assume "\<not> f"
    with m have "move_to_next_unfinished w s = (False, c)" by simp
    from unfinished_list_none [OF this] ne show False by simp
  qed
  with m have mt: "move_to_next_unfinished w s = (True, c)" by simp
  note cp = move_to_next_unfinished_True [OF mt]
  let ?w0 = "w\<lparr>cursor := c\<rparr>"
  have "[c..ti_num_pieces (metadata w) - 1] = c # [c + 1..ti_num_pieces (metadata w) - 1]"
    using cp by (simp add: upto_rec1)
  with cp have "unfinished_list w c = c # unfinished_list w (c + 1)"
    by (simp add: unfinished_list_def)
  with unfinished_list_step [OF mt] have "unfinished_list w c = ?U"
    by simp
  moreover have "unfinished_list ?w0 c = unfinished_list w c"
    by (rule unfinished_list_frame) simp_all
  ultimately have U0: "unfinished_list ?w0 c = ?U"
    by simp
  obtain ok t w1 where u0: "urgent_loop ?w0 ?pl 0 c = (ok, t, w1)"
    by (cases "urgent_loop ?w0 ?pl 0 c")
  from urgent_loop_exact [OF assms(1) u0]
  have calls: "priority_calls w1 = priority_calls ?w0 @ map (\<lambda>i. (i, 7)) (take ?K ?U)"
    and ok: "ok \<longleftrightarrow> ?K \<le> length ?U"
    and tl: "ok \<longrightarrow> t = last ((c - 1) # take ?K ?U) + 1"
    unfolding U0 iterations_0 by simp_all
  from ok assms(2) have ok by simp
  with tl ne have t: "t = ?t"
    by (simp add: urgent_end_def)
  from u0 \<open>ok\<close> t have u: "urgent_loop ?w0 ?pl 0 c = (True, ?t, w1)"
    by simp
  from normal_loop_spec [OF assms(1), of w1 n "(?t - s) * ?pl" ?t]
  obtain k :: nat where
    nl: "normal_loop w1 ?pl n ((?t - s) * ?pl) ?t =
      Some (w1\<lparr>priority := (\<lambda>i. if ?t \<le> i \<and> i < ?t + int k then 1 else priority w1 i),
          priority_calls := priority_calls w1 @ map (\<lambda>i. (i, 1)) [?t..?t + int k - 1]\<rparr>)"
      (is "_ = Some ?w2")
    and b1: "n + ?pl - 1 \<le> (?t - s) * ?pl + int k * ?pl"
    and b2: "0 < k \<longrightarrow> (?t - s) * ?pl + (int k - 1) * ?pl < n + ?pl - 1"
    by blast
  from jump_full [OF mt u] nl have j: "jump w s n = Some ?w2" by simp
  have "priority_calls ?w2 =
      priority_calls w @ map (\<lambda>i. (i, 7)) (take ?K ?U) @ map (\<lambda>i. (i, 1)) [?t..?t + int k - 1]"
    using calls by simp
  from windows_of_calls [OF this]
  have win: "urgent_window w ?w2 = take ?K ?U" "normal_window w ?w2 = [?t..?t + int k - 1]"
    by simp_all
  have 2: "n + ?pl - 1 \<le> (?t + int k - s) * ?pl"
    using b1 by (simp add: algebra_simps)
  have 3: "0 < k \<longrightarrow> (?t + int k - 1 - s) * ?pl < n + ?pl - 1"
    using b2 by (simp add: algebra_simps)
  note st = urgent_end_bounds [OF assms(1,2)]
  have "int ?K * ?pl \<le> (?t - s) * ?pl"
    using st assms(1) by (intro mult_right_mono) simp_all
  with assms(4) have 4: "int ?K * ?pl \<le> INT_MAX"
    by simp
  have 5: "(?t + int k - s) * ?pl \<le> INT_MAX"
  proof (cases "0 < k")
    case False
    with assms(4) show ?thesis by simp
  next
    case True
    with 3 have "(?t + int k - 1 - s) * ?pl + ?pl < n + 2 * ?pl - 1"
      by simp
    moreover have "(?t + int k - 1 - s) * ?pl + ?pl = (?t + int k - s) * ?pl"
      by (simp add: algebra_simps)
    ultimately show ?thesis
      using assms(5) by simp
  qed
  have 6: "?t + int k \<le> INT_MAX"
  proof (cases "0 < k")
    case False
    with assms(1,3,6) show ?thesis by simp
  next
    case True
    from st have "0 \<le> ?t + int k - 1 - s"
      using True by simp
    then have "(?t + int k - 1 - s) * 1 \<le> (?t + int k - 1 - s) * ?pl"
      using assms(1) by (intro mult_left_mono) simp_all
    with 3 True have "?t + int k - 1 - s < n + ?pl - 1"
      by simp
    with st assms(6) show ?thesis
      by simp
  qed
  from j win 2 3 4 5 6 show ?thesis by blast
qed

text \<open>
  C2 (as amended) at an input: four undownloaded 1 MiB pieces and \<open>jump(0, 3000000)\<close>:
  the first loop makes two rounds and stops at piece 2; pieces 0 and 1 are urgent,
  pieces 2 and 3 normal.
\<close>

theorem C2_witness:
  "0 < ti_piece_length (metadata (initial_world four_piece_torrent none_downloaded)) \<and>
   urgent_count (ti_piece_length (metadata (initial_world four_piece_torrent none_downloaded)))
     \<le> length (unfinished_list (initial_world four_piece_torrent none_downloaded) 0) \<and>
   urgent_end (initial_world four_piece_torrent none_downloaded) 0 = 2 \<and>
   map_option (urgent_window (initial_world four_piece_torrent none_downloaded))
     (jump (initial_world four_piece_torrent none_downloaded) 0 3000000) = Some [0, 1] \<and>
   map_option (normal_window (initial_world four_piece_torrent none_downloaded))
     (jump (initial_world four_piece_torrent none_downloaded) 0 3000000) = Some [2, 3]"
proof -
  let ?w = "initial_world four_piece_torrent none_downloaded"
  have pl: "ti_piece_length (metadata ?w) = 1048576"
    by (simp add: world_eval four_piece_torrent_def)
  have K: "urgent_count 1048576 = 2"
    by (simp add: urgent_count_def)
  have "[0..3] = [0, 1, 2, 3::int]"
    by (simp add: upto_rec1)
  then have U: "unfinished_list ?w 0 = [0, 1, 2, 3]"
    by (simp add: unfinished_list_def world_eval four_piece_torrent_def none_downloaded_def)
  have t: "urgent_end ?w 0 = 2"
    by (simp add: urgent_end_def pl K U)
  have h1: "0 < ti_piece_length (metadata ?w)"
    by (simp add: pl)
  have h2: "urgent_count (ti_piece_length (metadata ?w)) \<le> length (unfinished_list ?w 0)"
    by (simp add: pl K U)
  have h3: "(0::int) \<le> 3000000"
    by simp
  have h4: "(urgent_end ?w 0 - 0) * ti_piece_length (metadata ?w) \<le> INT_MAX"
    by (simp add: pl t INT_MAX_def)
  have h5: "3000000 + 2 * ti_piece_length (metadata ?w) \<le> INT_MAX"
    by (simp add: pl INT_MAX_def)
  have h6: "urgent_end ?w 0 + 3000000 + ti_piece_length (metadata ?w) \<le> INT_MAX"
    by (simp add: pl t INT_MAX_def)
  from C2_windows_reach_read_end [OF h1 h2 h3 h4 h5 h6]
  obtain w' k where j: "jump ?w 0 3000000 = Some w'"
    and u: "urgent_window ?w w' = take (urgent_count (ti_piece_length (metadata ?w))) (unfinished_list ?w 0)"
    and n: "normal_window ?w w' = [urgent_end ?w 0..urgent_end ?w 0 + int k - 1]"
    and lo: "3000000 + ti_piece_length (metadata ?w) - 1
       \<le> (urgent_end ?w 0 + int k - 0) * ti_piece_length (metadata ?w)"
    and hi: "0 < k \<longrightarrow> (urgent_end ?w 0 + int k - 1 - 0) * ti_piece_length (metadata ?w)
        < 3000000 + ti_piece_length (metadata ?w) - 1"
    by blast
  from u have u': "urgent_window ?w w' = [0, 1]"
    by (simp add: pl K U)
  from lo have "2 \<le> k"
    unfolding pl t by simp
  moreover from hi have "k \<le> 2"
    unfolding pl t by (cases "0 < k") simp_all
  ultimately have "k = 2" by simp
  with n have n': "normal_window ?w w' = [2, 3]"
    by (simp add: t upto_rec1)
  from h1 h2 t j u' n' show ?thesis by simp
qed

text \<open>
  C10 says that no index passed to \<open>piece_priority\<close> reaches \<open>num_pieces\<close>. The first
  loop of \<open>jump\<close> is guarded by \<open>move_to_next_unfinished\<close>; the second loop increments
  \<open>tail\<close> with no test against \<open>num_pieces\<close>. With two 4 MiB pieces, none downloaded,
  \<open>jump(1, 4096)\<close> (a read in the last piece) calls \<open>piece_priority(2, 1)\<close>, and 2 is
  \<open>num_pieces\<close>.
\<close>

theorem C10_normal_loop_past_last_piece:
  "ti_num_pieces (metadata (initial_world big_piece_torrent none_downloaded)) = 2 \<and>
   map_option priority_calls (jump (initial_world big_piece_torrent none_downloaded) 1 4096) =
     Some [(1, 7), (2, 1)]"
  by (simp add: jump_eval big_piece_torrent_def)

text \<open>
  C8: let \<open>advance()\<close> be called any number of times, the \<open>k\<close>-th call seeing the
  downloaded pieces \<open>hs ! k\<close>, where a piece downloaded at one call is downloaded at the
  next. Then every call returns, the cursor never decreases, and whenever a call changes
  the cursor, the piece it moves to was not downloaded at the time of that call nor of any
  call before it.
\<close>

theorem C8_cursor_never_moves_to_downloaded:
  assumes "\<forall>k. Suc k < length hs \<longrightarrow> (\<forall>p. (hs ! k) p \<longrightarrow> (hs ! Suc k) p)"
  shows "\<exists>ws. advances w hs = Some ws \<and> length ws = length hs \<and>
     (\<forall>k<length hs. cursor ((w # ws) ! k) \<le> cursor (ws ! k) \<and>
        (\<forall>j\<le>k. cursor (ws ! k) \<noteq> cursor ((w # ws) ! k) \<longrightarrow> \<not> (hs ! j) (cursor (ws ! k))))"
proof -
  from advances_spec [of w hs]
  obtain ws where r: "advances w hs = Some ws" and len: "length ws = length hs"
    and st: "\<forall>k<length hs. cursor ((w # ws) ! k) \<le> cursor (ws ! k) \<and>
        (cursor (ws ! k) \<noteq> cursor ((w # ws) ! k) \<longrightarrow> \<not> (hs ! k) (cursor (ws ! k)))"
    by blast
  have "\<forall>k<length hs. cursor ((w # ws) ! k) \<le> cursor (ws ! k) \<and>
        (\<forall>j\<le>k. cursor (ws ! k) \<noteq> cursor ((w # ws) ! k) \<longrightarrow> \<not> (hs ! j) (cursor (ws ! k)))"
    using st have_monotone [OF assms] by blast
  with r len show ?thesis by blast
qed

text \<open>
  C8 at an input: four 1 MiB pieces, cursor 0; piece 0 is downloaded at the first call and
  pieces 0 to 2 at the second: the cursor moves to 1, then to 3, and piece 3 was not
  downloaded at the first call.
\<close>

theorem C8_witness:
  "map_option (map cursor)
     (advances (initial_world four_piece_torrent none_downloaded)
        [downloaded_below 1, downloaded_below 3]) = Some [1, 3] \<and>
   \<not> ([downloaded_below 1, downloaded_below 3] ! 0) 3"
proof -
  let ?w = "initial_world four_piece_torrent none_downloaded"
  let ?hs = "[downloaded_below 1, downloaded_below 3]"
  have mono: "\<forall>k. Suc k < length ?hs \<longrightarrow> (\<forall>p. (?hs ! k) p \<longrightarrow> (?hs ! Suc k) p)"
    by (simp add: nth_Cons' downloaded_below_def)
  from C8_cursor_never_moves_to_downloaded [OF mono, of ?w]
  obtain ws where r: "advances ?w ?hs = Some ws"
    and st: "\<forall>k<length ?hs. cursor ((?w # ws) ! k) \<le> cursor (ws ! k) \<and>
        (\<forall>j\<le>k. cursor (ws ! k) \<noteq> cursor ((?w # ws) ! k) \<longrightarrow> \<not> (?hs ! j) (cursor (ws ! k)))"
    by blast
  have e: "map_option (map cursor) (advances ?w ?hs) = Some [1, 3]"
    by (simp add: advance_eval four_piece_torrent_def)
  with r have c: "map cursor ws = [1, 3]" by simp
  then obtain a b where ws: "ws = [a, b]" "cursor a = 1" "cursor b = 3"
    by auto
  from st have "\<forall>j\<le>1. cursor (ws ! 1) \<noteq> cursor ((?w # ws) ! 1) \<longrightarrow> \<not> (?hs ! j) (cursor (ws ! 1))"
    by simp
  then have "cursor (ws ! 1) \<noteq> cursor ((?w # ws) ! 1) \<longrightarrow> \<not> (?hs ! 0) (cursor (ws ! 1))"
    by blast
  with ws have "\<not> (?hs ! 0) 3" by simp
  with e show ?thesis by simp
qed

section \<open>What Read::Read and Read::read do\<close>

lemma Read_size_Nil: "Read_size [] = 0"
  by (simp add: Read_size_def)

lemma Read_size_fold:
  "fold (\<lambda>i s. s + pr_length (part i)) ps a = a + Read_size ps"
  unfolding Read_size_def
proof (induction ps arbitrary: a)
  case Nil
  show ?case by simp
next
  case (Cons p ps)
  show ?case
    by (simp add: Cons.IH [of "a + pr_length (part p)"] Cons.IH [of "pr_length (part p)"])
qed

lemma Read_size_Cons: "Read_size (p # ps) = pr_length (part p) + Read_size ps"
  using Read_size_fold [of ps "pr_length (part p)"] by (simp add: Read_size_def)

lemma Read_loop_step:
  assumes "0 < sz" "off < fe_size (file_at md index)"
    and "0 \<le> fe_offset (file_at md index) + off" "0 < ti_piece_length md"
  defines "x \<equiv> fe_offset (file_at md index) + off"
  defines "q \<equiv> x div ti_piece_length md"
  defines "st \<equiv> x mod ti_piece_length md"
  defines "len \<equiv> min (piece_size md q - st) sz"
  shows "Read_loop md index b off sz parts =
     Read_loop md index (b + len) (off + len) (sz - len)
       (parts @ [\<lparr>part = \<lparr>pr_piece = q, pr_start = st, pr_length = len\<rparr>, buf = b, filled = False\<rparr>])"
  using assms(1-4)
  by (subst Read_loop.simps)
    (simp add: map_file_def Let_def cdiv_nonneg cmod_nonneg mk_Part_def
      x_def q_def st_def len_def)

lemma Read_loop_stop:
  "\<not> (0 < sz \<and> off < fe_size (file_at md index)) \<Longrightarrow>
     Read_loop md index b off sz parts = Some parts"
  by (subst Read_loop.simps) auto

text \<open>Where the piece of a byte inside the torrent ends.\<close>

lemma piece_end:
  assumes wf: "well_formed md" and x: "0 \<le> x" "x < ti_total_size md"
  defines "pl \<equiv> ti_piece_length md"
  defines "q \<equiv> x div pl"
  shows "q < ti_num_pieces md"
    and "q = ti_num_pieces md - 1 \<Longrightarrow> x - x mod pl + piece_size md q = ti_total_size md"
    and "q \<noteq> ti_num_pieces md - 1 \<Longrightarrow>
      piece_size md q = pl \<and> (q + 1) * pl \<le> ti_total_size md"
    and "x mod pl < piece_size md q"
proof -
  from wf have pl: "0 < pl"
    and lo: "(ti_num_pieces md - 1) * pl < ti_total_size md"
    and hi: "ti_total_size md \<le> ti_num_pieces md * pl"
    by (simp_all add: well_formed_def pl_def)
  have dm: "x = q * pl + x mod pl"
    by (simp add: q_def)
  have m: "0 \<le> x mod pl" "x mod pl < pl"
    using pl by simp_all
  show q: "q < ti_num_pieces md"
  proof (rule ccontr)
    assume "\<not> q < ti_num_pieces md"
    then have "ti_num_pieces md * pl \<le> q * pl"
      using pl by (simp add: mult_right_mono)
    with dm m x hi show False by linarith
  qed
  show l: "x - x mod pl + piece_size md q = ti_total_size md" if "q = ti_num_pieces md - 1"
  proof -
    from that have "piece_size md q = ti_total_size md - q * pl"
      by (simp add: piece_size_def pl_def)
    with dm show ?thesis by linarith
  qed
  show n: "piece_size md q = pl \<and> (q + 1) * pl \<le> ti_total_size md"
    if "q \<noteq> ti_num_pieces md - 1"
  proof -
    from that q have "q + 1 \<le> ti_num_pieces md - 1" by simp
    then have "(q + 1) * pl \<le> (ti_num_pieces md - 1) * pl"
      using pl by (simp only: mult_right_mono less_imp_le)
    with lo that show ?thesis
      by (simp add: piece_size_def pl_def)
  qed
  show "x mod pl < piece_size md q"
  proof (cases "q = ti_num_pieces md - 1")
    case True
    from l [OF True] x show ?thesis by linarith
  next
    case False
    from n [OF False] m show ?thesis by simp
  qed
qed

lemma Read_loop_tiles:
  assumes wf: "well_formed md" and idx: "0 \<le> index" "index < num_files md"
  defines "A \<equiv> fe_offset (file_at md index)" and "F \<equiv> fe_size (file_at md index)"
  shows "0 \<le> off \<Longrightarrow>
    \<exists>r. Read_loop md index b off sz parts = Some (parts @ r) \<and>
      tiles md index off b r \<and>
      (r \<noteq> [] \<longrightarrow> 0 < sz \<and> off < F) \<and>
      Read_size r \<le> max 0 sz \<and>
      (Read_size r = max 0 sz \<or> F \<le> off + Read_size r) \<and>
      (ends_aligned md index \<longrightarrow> off \<le> F \<longrightarrow> off + Read_size r \<le> F)"
proof (induction "nat (F - off)" arbitrary: b off sz parts rule: less_induct)
  case less
  let ?pl = "ti_piece_length md"
  let ?T = "ti_total_size md"
  from idx have "file_at md index \<in> set (ti_files md)"
    by (simp add: file_at_def num_files_def)
  with wf have A: "0 \<le> A" and AF: "A + F \<le> ?T" and pl: "0 < ?pl"
    by (auto simp: well_formed_def A_def F_def)
  show ?case
  proof (cases "0 < sz \<and> off < F")
    case False
    then have "Read_loop md index b off sz parts = Some (parts @ [])"
      by (simp add: Read_loop_stop F_def)
    moreover have "Read_size [] = 0"
      by (simp add: Read_size_def)
    ultimately show ?thesis
      using False by (intro exI [of _ "[]"]) auto
  next
    case True
    define x where "x = A + off"
    define q where "q = x div ?pl"
    define st where "st = x mod ?pl"
    define len where "len = min (piece_size md q - st) sz"
    define p where "p = \<lparr>part = \<lparr>pr_piece = q, pr_start = st, pr_length = len\<rparr>, buf = b, filled = False\<rparr>"
    from True A less.prems AF have x: "0 \<le> x" "x < ?T"
      by (simp_all add: x_def)
    note pe = piece_end [OF wf x, folded q_def st_def]
    have st: "0 \<le> st" "st < ?pl"
      using pl by (simp_all add: st_def)
    have dm: "x = q * ?pl + st"
      by (simp add: q_def st_def)
    from pe(4) True have len: "0 < len" "len \<le> sz" "st + len \<le> piece_size md q"
      by (simp_all add: len_def)
    have step: "Read_loop md index b off sz parts =
        Read_loop md index (b + len) (off + len) (sz - len) (parts @ [p])"
      unfolding p_def len_def st_def q_def x_def A_def
      by (rule Read_loop_step) (use True A less.prems pl in \<open>simp_all add: F_def A_def\<close>)
    from len True have "nat (F - (off + len)) < nat (F - off)"
      by simp
    moreover from len less.prems have "0 \<le> off + len"
      by simp
    ultimately obtain r where
      r: "Read_loop md index (b + len) (off + len) (sz - len) (parts @ [p]) = Some ((parts @ [p]) @ r)"
      and t: "tiles md index (off + len) (b + len) r"
      and ne: "r \<noteq> [] \<longrightarrow> 0 < sz - len \<and> off + len < F"
      and s1: "Read_size r \<le> max 0 (sz - len)"
      and s2: "Read_size r = max 0 (sz - len) \<or> F \<le> off + len + Read_size r"
      and s3: "ends_aligned md index \<longrightarrow> off + len \<le> F \<longrightarrow> off + len + Read_size r \<le> F"
      using less.hyps [of "off + len" "b + len" "sz - len" "parts @ [p]"] by blast
    have nxt: "pr_piece (part (hd r)) = q + 1" if "r \<noteq> []"
    proof -
      from that ne have c: "len < sz" "off + len < F" by simp_all
      then have full: "len = piece_size md q - st"
        by (simp add: len_def)
      have "q \<noteq> ti_num_pieces md - 1"
      proof
        assume "q = ti_num_pieces md - 1"
        from pe(2) [OF this] full have "x + len = ?T"
          by (simp add: st_def)
        with c AF show False by (simp add: x_def)
      qed
      from pe(3) [OF this] full dm have "x + len = (q + 1) * ?pl"
        by (simp add: algebra_simps)
      then have "(A + (off + len)) div ?pl = q + 1"
        using pl by (simp add: x_def add.assoc)
      moreover from that t have "pr_piece (part (hd r)) = (A + (off + len)) div ?pl"
        by (cases r) (simp_all add: A_def)
      ultimately show ?thesis by simp
    qed
    have al: "off + len \<le> F" if "ends_aligned md index"
    proof (cases "q = ti_num_pieces md - 1")
      case q: True
      from pe(2) [OF q] have e: "x - st + piece_size md q = ?T"
        by (simp add: st_def)
      from that have "(A + F) mod ?pl = 0 \<or> A + F = ?T"
        by (simp add: ends_aligned_def Let_def A_def F_def)
      then have "A + F = ?T"
      proof
        assume "(A + F) mod ?pl = 0"
        then have "?pl dvd A + F"
          by (simp add: mod_eq_0_iff_dvd)
        then obtain m where "A + F = ?pl * m"
          by (rule dvdE)
        then have m: "A + F = m * ?pl"
          by (simp add: mult.commute)
        have "q < m"
        proof (rule ccontr)
          assume "\<not> q < m"
          then have "m * ?pl \<le> q * ?pl"
            using pl by (simp add: mult_right_mono)
          with m dm st True show False by (simp add: x_def)
        qed
        then have "(q + 1) * ?pl \<le> m * ?pl"
          using pl by (simp only: mult_right_mono less_imp_le zless_imp_add1_zle)
        moreover from wf q have "?T \<le> (q + 1) * ?pl"
          by (simp add: well_formed_def)
        ultimately show ?thesis
          using m AF by simp
      qed simp
      with e len(3) show ?thesis by (simp add: x_def)
    next
      case q: False
      from pe(3) [OF q] have ps: "piece_size md q = ?pl" and le: "(q + 1) * ?pl \<le> ?T"
        by simp_all
      from that have "(A + F) mod ?pl = 0 \<or> A + F = ?T"
        by (simp add: ends_aligned_def Let_def A_def F_def)
      then have "(q + 1) * ?pl \<le> A + F"
      proof
        assume "(A + F) mod ?pl = 0"
        then have "?pl dvd A + F"
          by (simp add: mod_eq_0_iff_dvd)
        then obtain m where "A + F = ?pl * m"
          by (rule dvdE)
        then have m: "A + F = m * ?pl"
          by (simp add: mult.commute)
        have "q < m"
        proof (rule ccontr)
          assume "\<not> q < m"
          then have "m * ?pl \<le> q * ?pl"
            using pl by (simp add: mult_right_mono)
          with m dm st True show False by (simp add: x_def)
        qed
        then have "(q + 1) * ?pl \<le> m * ?pl"
          using pl by (simp only: mult_right_mono less_imp_le zless_imp_add1_zle)
        with m show ?thesis by simp
      next
        assume "A + F = ?T"
        with le show ?thesis by simp
      qed
      with dm len(3) ps show ?thesis
        by (simp add: x_def algebra_simps)
    qed
    have sz: "Read_size (p # r) = len + Read_size r"
      by (simp add: Read_size_Cons p_def)
    have 1: "Read_loop md index b off sz parts = Some (parts @ p # r)"
      using step r by simp
    have 2: "tiles md index off b (p # r)"
      using t nxt len by (simp add: p_def q_def st_def x_def A_def)
    have 3: "Read_size (p # r) \<le> max 0 sz"
      using s1 len by (simp add: sz)
    have 4: "Read_size (p # r) = max 0 sz \<or> F \<le> off + Read_size (p # r)"
      using s2 len by (auto simp: sz)
    have 5: "ends_aligned md index \<longrightarrow> off \<le> F \<longrightarrow> off + Read_size (p # r) \<le> F"
      using s3 al by (auto simp: sz)
    have 6: "p # r \<noteq> [] \<longrightarrow> 0 < sz \<and> off < F"
      using True by simp
    from 1 2 3 4 5 6 show ?thesis
      by blast
  qed
qed

lemma tiles_pieces:
  "tiles md index off b r \<Longrightarrow>
     map (\<lambda>p. pr_piece (part p)) r =
       map (\<lambda>k. (fe_offset (file_at md index) + off) div ti_piece_length md + int k) [0..<length r]"
proof (induction r arbitrary: off b)
  case Nil
  show ?case by simp
next
  case (Cons p ps)
  let ?q = "(fe_offset (file_at md index) + off) div ti_piece_length md"
  from Cons.prems have p: "pr_piece (part p) = ?q"
    and t: "tiles md index (off + pr_length (part p)) (b + pr_length (part p)) ps"
    and n: "ps \<noteq> [] \<longrightarrow> pr_piece (part (hd ps)) = ?q + 1"
    by simp_all
  have "map (\<lambda>p. pr_piece (part p)) ps = map (\<lambda>k. ?q + 1 + int k) [0..<length ps]"
  proof (cases ps)
    case Nil
    then show ?thesis by simp
  next
    case (Cons p' ps')
    with t n have "(fe_offset (file_at md index) + (off + pr_length (part p))) div ti_piece_length md = ?q + 1"
      by simp
    with Cons.IH [OF t] show ?thesis by simp
  qed
  then have "map (\<lambda>p. pr_piece (part p)) ps = map (\<lambda>k. ?q + int k) (map Suc [0..<length ps])"
    by (simp add: o_def add.assoc)
  with p show ?case
    by (simp add: upt_conv_Cons map_Suc_upt del: upt_Suc)
qed

lemma Read_loop_unfilled:
  assumes "Read_loop md index b off sz parts = Some r"
  shows "(\<forall>i\<in>set parts. \<not> filled i) \<longrightarrow> (\<forall>i\<in>set r. \<not> filled i)"
proof (rule Read_loop.raw_induct
    [where P = "\<lambda>md index b off sz parts r. (\<forall>i\<in>set parts. \<not> filled i) \<longrightarrow> (\<forall>i\<in>set r. \<not> filled i)",
      OF _ assms], goal_cases)
  case (1 f md index b off sz parts r)
  show ?case
  proof (cases "0 < sz \<and> off < fe_size (file_at md index)")
    case True
    let ?q = "map_file md index off sz"
    let ?p = "?q\<lparr>pr_length := min (piece_size md (pr_piece ?q) - pr_start ?q) (pr_length ?q)\<rparr>"
    from True 1(2) have
      "f md index (b + pr_length ?p) (off + pr_length ?p) (sz - pr_length ?p)
         (parts @ [mk_Part ?p b]) = Some r"
      by (simp add: Let_def)
    from 1(1) [OF this] show ?thesis
      by (simp add: mk_Part_def)
  next
    case False
    with 1(2) show ?thesis by auto
  qed
qed

lemma Read_Read_unfilled:
  "Read_Read md b index off sz = Some r \<Longrightarrow> \<forall>i\<in>set r. \<not> filled i"
  using Read_loop_unfilled [of md index b off sz "[]" r] by (simp add: Read_Read_def)

lemma Read_trigger_calls:
  "Read_trigger w parts =
     w\<lparr>read_piece_calls := read_piece_calls w @
        map (\<lambda>i. pr_piece (part i)) (filter (\<lambda>i. have_piece w (pr_piece (part i))) parts)\<rparr>"
proof (induction parts arbitrary: w)
  case Nil
  show ?case by simp
next
  case (Cons i parts)
  show ?case
    by (simp add: Cons.IH read_piece_def)
qed

lemma Read_finished_unfilled:
  "parts \<noteq> [] \<Longrightarrow> \<forall>i\<in>set parts. \<not> filled i \<Longrightarrow> \<not> Read_finished parts"
  by (cases parts) simp_all

section \<open>The claims about reads\<close>

text \<open>
  C6 (as amended): with piece length 16384 and a file of 50000 bytes at torrent offset 0
  that is the whole torrent, the read at offset 49999 with the requested length 1000 is
  decomposed into exactly one Part of length 1, in piece 3, at in-piece offset 847
  (49999 - 3 * 16384).
\<close>

theorem C6_last_byte_part:
  "new_Read (btfs_setup (initial_world single_file_torrent none_downloaded)) ''/f'' 1000 49999 =
     Some [\<lparr>part = \<lparr>pr_piece = 3, pr_start = 847, pr_length = 1\<rparr>, buf = 0, filled = False\<rparr>]"
  by (simp add: new_Read_def setup_eval single_file_torrent_def to_int_def Read_eval)

text \<open>C6 as stated names the in-piece offset 15983; the code does not produce it.\<close>

theorem C6_offset_15983_counterexample:
  "new_Read (btfs_setup (initial_world single_file_torrent none_downloaded)) ''/f'' 1000 49999 \<noteq>
     Some [\<lparr>part = \<lparr>pr_piece = 3, pr_start = 15983, pr_length = 1\<rparr>, buf = 0, filled = False\<rparr>]"
  by (simp add: new_Read_def setup_eval single_file_torrent_def to_int_def Read_eval)

text \<open>
  C1 says that the Parts of a read at offset \<open>O\<close> of a file of size \<open>F\<close> sum to
  \<open>min(L, F - O)\<close>. \<open>btfs_read\<close> clamps the length to the size of the file, not to what is
  left of it after the offset, and the loop of \<open>Read::Read\<close> only stops between Parts: a
  Part is cut at the end of its piece, not at the end of the file. In the first file of
  the two-file torrent, the read of 1000 bytes at offset 49999 (one byte before the end
  of the file) is decomposed into one Part of 1000 bytes, 999 of which lie in the next
  file.
\<close>

theorem C1_part_runs_past_file_end:
  "new_Read (btfs_setup (initial_world two_file_torrent none_downloaded)) ''/a'' 1000 49999 =
     Some [\<lparr>part = \<lparr>pr_piece = 3, pr_start = 847, pr_length = 1000\<rparr>, buf = 0, filled = False\<rparr>] \<and>
   fe_size (fst (the (files (btfs_setup (initial_world two_file_torrent none_downloaded)) ''/a''))) = 50000"
  by (simp add: new_Read_def setup_eval two_file_torrent_def to_int_def Read_eval)

text \<open>
  What the decomposition does guarantee. In a torrent with a consistent geometry, for a
  file of less than 2 GiB, an offset inside the file (or at its end) and a length
  \<open>L \<ge> 0\<close>: the loop of \<open>Read::Read\<close> ends; the Parts tile the file from the offset on,
  without gap or overlap, each inside one piece, in consecutive pieces; their lengths sum
  to at most \<open>L\<close>; and when the file ends on a piece boundary or at the end of the torrent
  (as the file of a single-file torrent does) they sum to \<open>min(L, F - O)\<close>.
\<close>

theorem new_Read_tiles_file:
  assumes wf: "well_formed (metadata w)"
    and fl: "files w path = Some (f, index)" "0 \<le> index" "index < num_files (metadata w)"
    and F: "fe_size (file_at (metadata w) index) < 2 ^ 31"
    and off: "0 \<le> off" "off \<le> fe_size (file_at (metadata w) index)"
    and sz: "0 \<le> sz"
  shows "\<exists>r. new_Read w path sz off = Some r \<and>
      tiles (metadata w) index off 0 r \<and>
      map (\<lambda>p. pr_piece (part p)) r =
        map (\<lambda>k. (fe_offset (file_at (metadata w) index) + off) div ti_piece_length (metadata w) + int k)
          [0..<length r] \<and>
      Read_size r \<le> sz \<and>
      (ends_aligned (metadata w) index \<longrightarrow>
         Read_size r = min sz (fe_size (file_at (metadata w) index) - off))"
proof -
  let ?md = "metadata w"
  let ?F = "fe_size (file_at ?md index)"
  let ?S = "min sz ?F"
  from off F have o: "to_int off = off"
    by (intro to_int_id) simp_all
  from off sz F have s: "to_int ?S = ?S"
    by (intro to_int_id) simp_all
  from Read_loop_tiles [OF wf fl(2,3) off(1), of 0 ?S "[]"]
  obtain r where r: "Read_loop ?md index 0 off ?S [] = Some r"
    and t: "tiles ?md index off 0 r"
    and s1: "Read_size r \<le> max 0 ?S"
    and s2: "Read_size r = max 0 ?S \<or> ?F \<le> off + Read_size r"
    and s3: "ends_aligned ?md index \<longrightarrow> off \<le> ?F \<longrightarrow> off + Read_size r \<le> ?F"
    by auto
  have 1: "new_Read w path sz off = Some r"
    using r fl(1) by (simp add: new_Read_def Let_def o s Read_Read_def)
  have 2: "Read_size r \<le> sz"
    using s1 sz off by simp
  have 3: "Read_size r = min sz (?F - off)" if "ends_aligned ?md index"
    using that s1 s2 s3 off sz by auto
  from 1 t tiles_pieces [OF t] 2 3 show ?thesis
    by blast
qed

text \<open>
  At an input: the read of the whole file of 50000 bytes is given four Parts, in pieces 0
  to 3, of 16384, 16384, 16384 and 848 bytes.
\<close>

lemma new_Read_tiles_file_witness:
  "well_formed single_file_torrent \<and> ends_aligned single_file_torrent 0 \<and>
   map_option (map (\<lambda>p. (pr_piece (part p), pr_start (part p), pr_length (part p))))
     (new_Read (btfs_setup (initial_world single_file_torrent none_downloaded)) ''/f'' 50000 0) =
     Some [(0, 0, 16384), (1, 0, 16384), (2, 0, 16384), (3, 0, 848)] \<and>
   map_option Read_size
     (new_Read (btfs_setup (initial_world single_file_torrent none_downloaded)) ''/f'' 50000 0) =
     Some (min 50000 (50000 - 0))"
proof -
  let ?w = "btfs_setup (initial_world single_file_torrent none_downloaded)"
  let ?f = "\<lparr>fe_path = ''f'', fe_offset = 0, fe_size = 50000\<rparr>"
  have md: "metadata ?w = single_file_torrent"
    by (simp add: setup_eval single_file_torrent_def)
  have wf: "well_formed (metadata ?w)"
    unfolding md by (simp add: well_formed_def single_file_torrent_def)
  have al: "ends_aligned (metadata ?w) 0"
    unfolding md by (simp add: ends_aligned_def single_file_torrent_def file_at_def)
  have fl: "files ?w ''/f'' = Some (?f, 0)"
    by (simp add: setup_eval single_file_torrent_def)
  have n: "(0::int) < num_files (metadata ?w)"
    unfolding md by (simp add: num_files_def single_file_torrent_def)
  have F: "fe_size (file_at (metadata ?w) 0) = 50000"
    unfolding md by (simp add: file_at_def single_file_torrent_def)
  from new_Read_tiles_file [OF wf fl _ n, of 0 50000] al
  obtain r where r: "new_Read ?w ''/f'' 50000 0 = Some r"
    and s: "Read_size r = min 50000 (fe_size (file_at (metadata ?w) 0) - 0)"
    unfolding F by auto
  have e: "map_option (map (\<lambda>p. (pr_piece (part p), pr_start (part p), pr_length (part p))))
     (new_Read ?w ''/f'' 50000 0) =
     Some [(0, 0, 16384), (1, 0, 16384), (2, 0, 16384), (3, 0, 848)]"
    by (simp add: new_Read_def setup_eval single_file_torrent_def to_int_def Read_eval)
  from r s F wf al e md show ?thesis by simp
qed

text \<open>
  The offset of \<open>btfs_read\<close> is 64 bits wide and the parameter of \<open>Read::Read\<close> is an
  \<open>int\<close>: in a file of 3 GiB the read at offset \<open>2^31\<close> reaches \<open>Read::Read\<close> as the
  offset \<open>-2^31\<close> and is given one Part, in piece -512.
\<close>

lemma narrowed_offset_part:
  "new_Read (btfs_setup (initial_world large_file_torrent none_downloaded)) ''/f'' 4096 2147483648 =
     Some [\<lparr>part = \<lparr>pr_piece = - 512, pr_start = 0, pr_length = 4096\<rparr>, buf = 0, filled = False\<rparr>]"
  by (simp add: new_Read_def setup_eval large_file_torrent_def to_int_def Read_Read_def
      Read_loop.simps file_at_def map_file_def piece_size_def mk_Part_def Let_def
      cdiv_def cmod_def)



text \<open>
  The same through \<open>btfs_read\<close>, which passes its 64-bit offset to the \<open>int\<close> parameter
  of \<open>Read::Read\<close>: for an offset that the \<open>int\<close> holds, the caller gets the result 0 and
  no error.
\<close>

lemma btfs_read_at_or_past_end:
  assumes "is_file w path" "\<not> is_dir w path"
    and "fe_size (file_at (metadata w) (snd (the (files w path)))) \<le> off"
    and "- (2 ^ 31) \<le> off" "off < 2 ^ 31"
  shows "btfs_read w path sz off = Some (Inr (Returned 0, w))"
proof -
  from assms(3-5) have "new_Read w path sz off = Some []"
    by (simp add: new_Read_def Let_def to_int_id Read_Read_def Read_loop.simps)
  with assms(1,2) show ?thesis
    by (simp add: btfs_read_def Read_read_def Read_size_Nil)
qed

text \<open>
  C3 as stated fails: \<open>Read::read\<close> does not fill its Parts, it asks the engine to deliver
  the pieces (\<open>read_piece\<close>), and the data arrive in a later \<open>read_piece_alert\<close>. With
  every piece downloaded, the read of 1000 bytes at offset 0 has one Part, in piece 0, and
  enters the wait.
\<close>

theorem C3_downloaded_read_waits_counterexample:
  "have_piece (btfs_setup (initial_world single_file_torrent all_downloaded)) 0 \<and>
   new_Read (btfs_setup (initial_world single_file_torrent all_downloaded)) ''/f'' 1000 0 =
     Some [\<lparr>part = \<lparr>pr_piece = 0, pr_start = 0, pr_length = 1000\<rparr>, buf = 0, filled = False\<rparr>] \<and>
   map_option (map_sum id fst)
     (btfs_read (btfs_setup (initial_world single_file_torrent all_downloaded)) ''/f'' 1000 0) =
     Some (Inr Waits)"
  by (simp add: btfs_read_def is_dir_def is_file_def new_Read_def setup_eval Read_eval
      Read_read_def Read_size_def jump_eval read_piece_def to_int_def single_file_torrent_def)

text \<open>
  C3 (as amended): for every read, with the Parts \<open>Read::Read\<close> has made for it, all of
  which lie in pieces that are downloaded when the read begins: if the read has no bytes
  (\<open>size() \<le> 0\<close>), \<open>Read::read\<close> returns 0 without waiting and changes nothing;
  otherwise it calls \<open>read_piece\<close> for the piece of every Part, in order, and then enters
  the wait.
\<close>

theorem C3_read_requests_then_waits:
  assumes "Read_Read md b index off sz = Some parts"
    and "\<forall>i\<in>set parts. have_piece w (pr_piece (part i))"
  shows "if Read_size parts \<le> 0 then Read_read w parts = Some (Returned 0, w)
     else (\<exists>w'. Read_read w parts = Some (Waits, w') \<and>
        read_piece_calls w' = read_piece_calls w @ map (\<lambda>i. pr_piece (part i)) parts)"
proof (cases "Read_size parts \<le> 0")
  case True
  then show ?thesis by (simp add: Read_read_def)
next
  case False
  then have ne: "parts \<noteq> []"
    by (auto simp: Read_size_Nil)
  let ?w1 = "Read_trigger w parts"
  from assms(2) have f: "filter (\<lambda>i. have_piece w (pr_piece (part i))) parts = parts"
    by (simp add: filter_id_conv)
  have c1: "read_piece_calls ?w1 = read_piece_calls w @ map (\<lambda>i. pr_piece (part i)) parts"
    by (subst Read_trigger_calls) (simp add: f)
  from jump_returns [of ?w1 "pr_piece (part (hd parts))" "Read_size parts"]
  obtain w' where j: "jump ?w1 (pr_piece (part (hd parts))) (Read_size parts) = Some w'"
    and c2: "read_piece_calls w' = read_piece_calls ?w1"
    by blast
  from Read_finished_unfilled [OF ne Read_Read_unfilled [OF assms(1)]] False j
  have "Read_read w parts = Some (Waits, w')"
    by (simp add: Read_read_def Let_def)
  with c1 c2 False show ?thesis by simp
qed

text \<open>C3 (as amended) at an input: the read of 1000 bytes at offset 0, piece 0 downloaded.\<close>

theorem C3_witness:
  "Read_Read single_file_torrent 0 0 0 1000 =
     Some [\<lparr>part = \<lparr>pr_piece = 0, pr_start = 0, pr_length = 1000\<rparr>, buf = 0, filled = False\<rparr>] \<and>
   have_piece (initial_world single_file_torrent all_downloaded) 0 \<and>
   (\<exists>w'. Read_read (initial_world single_file_torrent all_downloaded)
        [\<lparr>part = \<lparr>pr_piece = 0, pr_start = 0, pr_length = 1000\<rparr>, buf = 0, filled = False\<rparr>] =
        Some (Waits, w') \<and>
      read_piece_calls w' = [0])"
proof -
  let ?w = "initial_world single_file_torrent all_downloaded"
  let ?ps = "[\<lparr>part = \<lparr>pr_piece = 0, pr_start = 0, pr_length = 1000\<rparr>, buf = 0, filled = False\<rparr>]"
  have r: "Read_Read single_file_torrent 0 0 0 1000 = Some ?ps"
    by (simp add: Read_eval single_file_torrent_def)
  have h2: "\<forall>i\<in>set ?ps. have_piece ?w (pr_piece (part i))"
    by (simp add: world_eval)
  have sz: "\<not> Read_size ?ps \<le> 0"
    by (simp add: Read_size_def)
  from C3_read_requests_then_waits [OF r h2] sz
  have "\<exists>w'. Read_read ?w ?ps = Some (Waits, w') \<and>
      read_piece_calls w' = read_piece_calls ?w @ map (\<lambda>i. pr_piece (part i)) ?ps"
    by simp
  then have "\<exists>w'. Read_read ?w ?ps = Some (Waits, w') \<and> read_piece_calls w' = [0]"
    by (simp add: world_eval)
  with r h2 show ?thesis by simp
qed

section \<open>What setup does\<close>

lemma setup_path_insert_all:
  "setup_path d parent xs = insert_all (path_inserts parent xs) d"
  by (induction xs arbitrary: d parent) (simp_all add: insert_all_def)

lemma insert_all_append: "insert_all (ps @ qs) d = insert_all qs (insert_all ps d)"
  by (simp add: insert_all_def)

lemma mem_fst: "(a, x) \<in> set ps \<Longrightarrow> a \<in> fst ` set ps"
  by force

lemma insert_all_closed:
  "insert_all ps d =
     (\<lambda>k. if k \<in> fst ` set ps
          then Some ((case d k of None \<Rightarrow> {} | Some s \<Rightarrow> s) \<union> {x. (k, x) \<in> set ps})
          else d k)"
proof (induction ps arbitrary: d)
  case Nil
  show ?case by (simp add: insert_all_def)
next
  case (Cons p ps)
  have "insert_all (p # ps) d = insert_all ps (dirs_insert d (fst p) (snd p))"
    by (simp add: insert_all_def)
  also have "\<dots> = (\<lambda>k. if k \<in> fst ` set (p # ps)
          then Some ((case d k of None \<Rightarrow> {} | Some s \<Rightarrow> s) \<union> {x. (k, x) \<in> set (p # ps)})
          else d k)"
    unfolding Cons.IH
    by (cases p) (auto simp: fun_eq_iff dirs_insert_def split: option.splits dest: mem_fst)
  finally show ?case .
qed

lemma insert_all_idem: "insert_all ps (insert_all ps d) = insert_all ps d"
  by (subst (1 2 3) insert_all_closed) (auto simp: fun_eq_iff)

lemma bind_all_Nil: "bind_all [] f = f"
  by (simp add: bind_all_def)

lemma bind_all_Cons: "bind_all (b # bs) f = bind_all bs (f(fst b \<mapsto> snd b))"
  by (simp add: bind_all_def)

lemma bind_all_map_add: "bind_all bs m = m ++ map_of (rev bs)"
proof (induction bs arbitrary: m)
  case Nil
  show ?case by (simp add: bind_all_Nil)
next
  case (Cons b bs)
  have "bind_all (b # bs) m = bind_all bs (m(fst b \<mapsto> snd b))"
    by (rule bind_all_Cons)
  also have "\<dots> = m(fst b \<mapsto> snd b) ++ map_of (rev bs)"
    by (rule Cons.IH)
  also have "\<dots> = m ++ map_of (rev (b # bs))"
    by (cases b) (auto simp: fun_eq_iff map_add_def split: option.splits)
  finally show ?case .
qed

lemma bind_all_idem: "bind_all bs (bind_all bs m) = bind_all bs m"
  by (auto simp: bind_all_map_add fun_eq_iff map_add_def split: option.splits)

lemma setup_loop_explicit:
  "setup_loop w md i =
     w\<lparr>file_priorities := (\<lambda>j. if i \<le> j \<and> j < num_files md then 0 else file_priorities w j),
       dirs := insert_all (concat (map (file_inserts md) [i..num_files md - 1])) (dirs w),
       files := bind_all (map (file_binding md) [i..num_files md - 1]) (files w)\<rparr>"
proof (induction w md i rule: setup_loop.induct)
  case (1 w md i)
  show ?case
  proof (cases "i < num_files md")
    case False
    then have "(\<lambda>j. if i \<le> j \<and> j < num_files md then 0 else file_priorities w j) = file_priorities w"
      by (auto simp: fun_eq_iff)
    with False show ?thesis
      by (simp add: setup_loop.simps [of w md i] insert_all_def bind_all_Nil)
  next
    case True
    let ?w1 = "file_priority w i 0"
    let ?w2 = "?w1\<lparr>dirs := setup_path (dirs ?w1) [] (strtok [] (fe_path (file_at md i)))\<rparr>"
    let ?w3 = "?w2\<lparr>files := (files ?w2)(''/'' @ fe_path (file_at md i) \<mapsto> (file_at md i, i))\<rparr>"
    have e: "setup_loop w md i = setup_loop ?w3 md (i + 1)"
      using True by (simp add: setup_loop.simps [of w md i] Let_def)
    have u: "[i..num_files md - 1] = i # [i + 1..num_files md - 1]"
      using True by (simp add: upto_rec1)
    have fp: "(\<lambda>j. if i + 1 \<le> j \<and> j < num_files md then 0 else file_priorities ?w3 j) =
        (\<lambda>j. if i \<le> j \<and> j < num_files md then 0 else file_priorities w j)"
      using True by (auto simp: fun_eq_iff file_priority_def)
    have d: "insert_all (concat (map (file_inserts md) [i + 1..num_files md - 1])) (dirs ?w3) =
        insert_all (concat (map (file_inserts md) [i..num_files md - 1])) (dirs w)"
      unfolding u
      by (simp add: insert_all_append setup_path_insert_all file_inserts_def file_priority_def)
    have f: "bind_all (map (file_binding md) [i + 1..num_files md - 1]) (files ?w3) =
        bind_all (map (file_binding md) [i..num_files md - 1]) (files w)"
      unfolding u
      by (simp add: file_binding_def file_priority_def bind_all_Cons)
    show ?thesis
      unfolding e "1.IH" [OF True refl refl refl] fp d f
      by (simp add: file_priority_def)
  qed
qed

lemma btfs_setup_explicit:
  "btfs_setup w =
     w\<lparr>download_limit := 655360, upload_limit := 655360,
       file_priorities := (\<lambda>j. if 0 \<le> j \<and> j < num_files (metadata w) then 0 else file_priorities w j),
       dirs := insert_all (concat (map (file_inserts (metadata w)) [0..num_files (metadata w) - 1])) (dirs w),
       files := bind_all (map (file_binding (metadata w)) [0..num_files (metadata w) - 1]) (files w)\<rparr>"
proof -
  let ?v = "w\<lparr>download_limit := 5 * 1024 * 1024 div 8, upload_limit := 5 * 1024 * 1024 div 8\<rparr>"
  have fp: "(\<lambda>j. if 0 \<le> j \<and> j < num_files (metadata w) then 0 else file_priorities ?v j) =
      (\<lambda>j. if 0 \<le> j \<and> j < num_files (metadata w) then 0 else file_priorities w j)"
    by (simp cong: if_cong)
  have "btfs_setup w = setup_loop ?v (metadata w) 0"
    by (simp add: btfs_setup_def Let_def set_download_limit_def set_upload_limit_def)
  also have "\<dots> = ?v\<lparr>file_priorities :=
        (\<lambda>j. if 0 \<le> j \<and> j < num_files (metadata w) then 0 else file_priorities ?v j),
       dirs := insert_all (concat (map (file_inserts (metadata w)) [0..num_files (metadata w) - 1])) (dirs ?v),
       files := bind_all (map (file_binding (metadata w)) [0..num_files (metadata w) - 1]) (files ?v)\<rparr>"
    by (rule setup_loop_explicit)
  finally show ?thesis
    unfolding fp by simp
qed

lemma metadata_btfs_setup: "metadata (btfs_setup w) = metadata w"
  by (subst btfs_setup_explicit) simp

lemma namespace_built_btfs_setup: "namespace_built (btfs_setup w)"
  unfolding namespace_built_def
  by (rule exI [of _ w]) (simp add: metadata_btfs_setup)

lemma namespace_built_jump:
  assumes "namespace_built w" "jump w s n = Some w'"
  shows "namespace_built w'"
proof -
  have "metadata w' = metadata w \<and> files w' = files w \<and> dirs w' = dirs w \<and>
      file_priorities w' = file_priorities w \<and> download_limit w' = download_limit w \<and>
      upload_limit w' = upload_limit w"
  proof (cases rule: jump_cases [of s w n])
    case none
    with assms(2) show ?thesis by simp
  next
    case (early c us v)
    with assms(2) have "w' = v" by simp
    moreover have "metadata v = metadata w \<and> files v = files w \<and> dirs v = dirs w \<and>
      file_priorities v = file_priorities w \<and> download_limit v = download_limit w \<and>
      upload_limit v = upload_limit w"
      by (subst (1 2 3 4 5 6) early(6)) simp
    ultimately show ?thesis by simp
  next
    case (full c us t k v)
    with assms(2) have "w' = v" by simp
    moreover have "metadata v = metadata w \<and> files v = files w \<and> dirs v = dirs w \<and>
      file_priorities v = file_priorities w \<and> download_limit v = download_limit w \<and>
      upload_limit v = upload_limit w"
      by (subst (1 2 3 4 5 6) full(6)) simp
    ultimately show ?thesis by simp
  qed
  with assms(1) show ?thesis
    unfolding namespace_built_def by simp
qed

section \<open>The claim about the metadata alert\<close>

text \<open>
  C9: once the Namespace has been built, handling a further metadata-received alert for
  the torrent returns the state it was given: \<open>files\<close>, \<open>dirs\<close> and every other
  component are unchanged. (\<open>setup()\<close> runs again; it inserts what is there and gives the
  engine the settings it has.)
\<close>

theorem C9_second_metadata_alert_changes_nothing:
  "namespace_built w \<Longrightarrow> handle_metadata_received_alert w (handle w) = w"
proof -
  assume "namespace_built w"
  then obtain w0 where md: "metadata w0 = metadata w"
    and f: "files w = files (btfs_setup w0)" and d: "dirs w = dirs (btfs_setup w0)"
    and p: "file_priorities w = file_priorities (btfs_setup w0)"
    and dl: "download_limit w = download_limit (btfs_setup w0)"
    and ul: "upload_limit w = upload_limit (btfs_setup w0)"
    unfolding namespace_built_def by blast
  let ?n = "num_files (metadata w)"
  let ?ps = "concat (map (file_inserts (metadata w)) [0..?n - 1])"
  let ?bs = "map (file_binding (metadata w)) [0..?n - 1]"
  have f': "files w = bind_all ?bs (files w0)"
    unfolding f by (subst btfs_setup_explicit) (simp add: md)
  have d': "dirs w = insert_all ?ps (dirs w0)"
    unfolding d by (subst btfs_setup_explicit) (simp add: md)
  have p': "file_priorities w = (\<lambda>j. if 0 \<le> j \<and> j < ?n then 0 else file_priorities w0 j)"
    unfolding p by (subst btfs_setup_explicit) (simp add: md)
  have dl': "download_limit w = 655360"
    unfolding dl by (subst btfs_setup_explicit) simp
  have ul': "upload_limit w = 655360"
    unfolding ul by (subst btfs_setup_explicit) simp
  have 1: "bind_all ?bs (files w) = files w"
    unfolding f' by (rule bind_all_idem)
  have 2: "insert_all ?ps (dirs w) = dirs w"
    unfolding d' by (rule insert_all_idem)
  have 3: "(\<lambda>j. if 0 \<le> j \<and> j < ?n then 0 else file_priorities w j) = file_priorities w"
  proof -
    have "(\<lambda>j. if 0 \<le> j \<and> j < ?n then 0 else file_priorities w j) =
        (\<lambda>j. if 0 \<le> j \<and> j < ?n then 0 else file_priorities w0 j)"
      by (subst p') (simp add: fun_eq_iff)
    with p' show ?thesis by simp
  qed
  have "btfs_setup w = w"
    by (subst btfs_setup_explicit) (simp add: 1 2 3 dl' ul')
  then show ?thesis
    by (simp add: handle_metadata_received_alert_def)
qed

text \<open>
  C9 at an input: the state after \<open>setup()\<close> on the two-file torrent, with the directory
  map it has built.
\<close>

theorem C9_witness:
  "handle_metadata_received_alert (btfs_setup (initial_world two_file_torrent none_downloaded))
       (handle (btfs_setup (initial_world two_file_torrent none_downloaded))) =
     btfs_setup (initial_world two_file_torrent none_downloaded) \<and>
   dirs (btfs_setup (initial_world two_file_torrent none_downloaded)) =
     [''/'' \<mapsto> {''d'', ''a''}, ''/d'' \<mapsto> {''b''}]"
proof -
  have "dirs (btfs_setup (initial_world two_file_torrent none_downloaded)) =
     [''/'' \<mapsto> {''d'', ''a''}, ''/d'' \<mapsto> {''b''}]"
    by (simp add: setup_eval two_file_torrent_def)
  with C9_second_metadata_alert_changes_nothing [OF namespace_built_btfs_setup,
      of "initial_world two_file_torrent none_downloaded"]
  show ?thesis by simp
qed

end
